theory Spec2Isabelle
  imports Complex_Main "HOL-Library.Finite_Map"
begin

section \<open>The rename and undo engine of massrenamer.py\<close>

text \<open>
  The development embeds the methods \<open>rename\<close>, \<open>_get_and_validate_inputs\<close>,
  \<open>_handle_name_conflicts\<close>, \<open>_execute_rename\<close> and \<open>undo\<close> of the class
  \<open>MassRenamerApp\<close>, together with the library functions they call
  (\<open>os.path.join\<close>, \<open>os.path.splitext\<close>, \<open>str\<close>, \<open>shutil.move\<close>, the float
  arithmetic of the progress percentage), in their POSIX form.

  Strings are lists of characters. The text of the three input widgets enters the model
  already parsed: \<open>folder\<close> is \<open>entry_local.text().strip()\<close>, and \<open>origs\<close> and \<open>news\<close> are
  the stripped non-blank lines of the two editors.
\<close>

subsection \<open>Per-platform illegal characters\<close>

type_synonym path = string

definition ILLEGAL_CHARS_LINUX :: "char set" where
  "ILLEGAL_CHARS_LINUX = set ''/''"

definition ILLEGAL_CHARS_WINDOWS :: "char set" where
  "ILLEGAL_CHARS_WINDOWS =
     set [CHR ''/'', CHR 0x5C, CHR '':'', CHR ''*'', CHR ''?'', CHR 0x22,
          CHR ''<'', CHR ''>'', CHR ''|'']"

definition ILLEGAL_CHARS_MACOS :: "char set" where
  "ILLEGAL_CHARS_MACOS = set ''/:''"

definition ILLEGAL_CHARS_IOS :: "char set" where
  "ILLEGAL_CHARS_IOS = set ''/:''"

definition ILLEGAL_CHARS_ANDROID :: "char set" where
  "ILLEGAL_CHARS_ANDROID =
     set [CHR ''/'', CHR 0x5C, CHR '':'', CHR ''*'', CHR ''?'', CHR 0x22,
          CHR ''<'', CHR ''>'', CHR ''|'']"

text \<open>The four boolean settings read with \<open>self.settings.value(..., True, type=bool)\<close>.\<close>

record settings =
  disallow_windows_chars :: bool
  disallow_macos_chars :: bool
  disallow_ios_chars :: bool
  disallow_android_chars :: bool

text \<open>
  Lines 1503 to 1511: the set starts as a copy of \<open>ILLEGAL_CHARS_LINUX\<close> and is updated
  with each platform's set whose setting is on.
\<close>

definition illegal_chars :: "settings \<Rightarrow> char set" where
  "illegal_chars s =
     (let c0 = ILLEGAL_CHARS_LINUX;
          c1 = (if disallow_windows_chars s then c0 \<union> ILLEGAL_CHARS_WINDOWS else c0);
          c2 = (if disallow_macos_chars s then c1 \<union> ILLEGAL_CHARS_MACOS else c1);
          c3 = (if disallow_ios_chars s then c2 \<union> ILLEGAL_CHARS_IOS else c2);
          c4 = (if disallow_android_chars s then c3 \<union> ILLEGAL_CHARS_ANDROID else c3)
      in c4)"

text \<open>
  Line 1513: the characters of the new names that are in the set, here in order of
  occurrence (the source collects them in a set and tests it for emptiness).
\<close>

definition found_illegal :: "settings \<Rightarrow> string list \<Rightarrow> char list" where
  "found_illegal s news = filter (\<lambda>ch. ch \<in> illegal_chars s) (concat news)"

text \<open>Line 1523: every name with the illegal characters removed.\<close>

definition strip_illegal :: "settings \<Rightarrow> string list \<Rightarrow> string list" where
  "strip_illegal s news = map (filter (\<lambda>c. c \<notin> illegal_chars s)) news"

text \<open>
  The policy as the specification words it: the union of the per-platform sets whose
  option is enabled, and nothing else.
\<close>

definition enabled_union :: "settings \<Rightarrow> char set" where
  "enabled_union s =
     (if disallow_windows_chars s then ILLEGAL_CHARS_WINDOWS else {}) \<union>
     (if disallow_macos_chars s then ILLEGAL_CHARS_MACOS else {}) \<union>
     (if disallow_ios_chars s then ILLEGAL_CHARS_IOS else {}) \<union>
     (if disallow_android_chars s then ILLEGAL_CHARS_ANDROID else {})"

definition all_disabled :: settings where
  "all_disabled =
     \<lparr>disallow_windows_chars = False, disallow_macos_chars = False,
      disallow_ios_chars = False, disallow_android_chars = False\<rparr>"

subsection \<open>Library functions on strings and paths (POSIX)\<close>

text \<open>\<open>str.rfind\<close> for a single character: the last index, or \<open>-1\<close>.\<close>

fun rfind_from :: "char \<Rightarrow> string \<Rightarrow> int \<Rightarrow> int \<Rightarrow> int" where
  "rfind_from c [] i found = found"
| "rfind_from c (x # xs) i found = rfind_from c xs (i + 1) (if x = c then i else found)"

definition rfind :: "string \<Rightarrow> char \<Rightarrow> int" where
  "rfind p c = rfind_from c p 0 (- 1)"

text \<open>
  \<open>os.path.splitext\<close> (\<open>genericpath._splitext\<close> with separator \<open>/\<close> and extension
  separator \<open>.\<close>): the extension starts at the last dot of the last path component,
  unless only dots precede it there; the inner loop skips those leading dots.
\<close>

function skip_leading_dots :: "string \<Rightarrow> int \<Rightarrow> int \<Rightarrow> string \<times> string" where
  "skip_leading_dots p filenameIndex dotIndex =
     (if filenameIndex < dotIndex then
        (if take 1 (drop (nat filenameIndex) p) \<noteq> ''.''
         then (take (nat dotIndex) p, drop (nat dotIndex) p)
         else skip_leading_dots p (filenameIndex + 1) dotIndex)
      else (p, []))"
  by pat_completeness auto
termination
  by (relation "measure (\<lambda>(p, f, d). nat (d - f))") auto

definition splitext :: "string \<Rightarrow> string \<times> string" where
  "splitext p =
     (let sepIndex = rfind p CHR ''/'';
          dotIndex = rfind p CHR ''.''
      in if dotIndex > sepIndex then skip_leading_dots p (sepIndex + 1) dotIndex
         else (p, []))"

text \<open>\<open>str\<close> of a non-negative integer: its decimal digits.\<close>

definition digit_char :: "nat \<Rightarrow> char" where
  "digit_char d = ''0123456789'' ! d"

function str_nat :: "nat \<Rightarrow> string" where
  "str_nat n = (if n < 10 then [digit_char n] else str_nat (n div 10) @ [digit_char (n mod 10)])"
  by pat_completeness auto
termination
  by (relation "measure id") auto

text \<open>\<open>os.path.join\<close> of two components.\<close>

definition path_join :: "path \<Rightarrow> string \<Rightarrow> path" where
  "path_join a b =
     (if take 1 b = ''/'' then b
      else if a = [] \<or> last a = CHR ''/'' then a @ b
      else a @ ''/'' @ b)"

text \<open>\<open>shutil._basename\<close>: the last component, trailing separators dropped.\<close>

definition rstrip_sep :: "path \<Rightarrow> path" where
  "rstrip_sep p = rev (dropWhile (\<lambda>c. c = CHR ''/'') (rev p))"

definition basename :: "path \<Rightarrow> string" where
  "basename p = (let q = rstrip_sep p in drop (nat (rfind q CHR ''/'' + 1)) q)"

text \<open>\<open>"\n".join(lines)\<close>, the text given to \<open>setPlainText\<close>.\<close>

fun join_lines :: "string list \<Rightarrow> string" where
  "join_lines [] = []"
| "join_lines [x] = x"
| "join_lines (x # y # ys) = x @ [CHR 0x0A] @ join_lines (y # ys)"

subsection \<open>The file system and its faults\<close>

text \<open>
  The file system is a finite map from path strings to nodes. Paths are compared as
  strings. The history file, the two log files and the console are kept apart from it, as
  components of the application state: the engine refuses the configuration directory as
  the folder to rename in.
\<close>

datatype node = RegularFile string | Directory

type_synonym filesystem = "(path, node) fmap"

definition path_exists :: "filesystem \<Rightarrow> path \<Rightarrow> bool" where
  "path_exists fs p = (fmlookup fs p \<noteq> None)"

definition isfile :: "filesystem \<Rightarrow> path \<Rightarrow> bool" where
  "isfile fs p = (case fmlookup fs p of Some (RegularFile c) \<Rightarrow> True | _ \<Rightarrow> False)"

definition isdir :: "filesystem \<Rightarrow> path \<Rightarrow> bool" where
  "isdir fs p = (fmlookup fs p = Some Directory)"

text \<open>
  The exceptions the handlers of the two loops catch. \<open>OSFault\<close> stands for every
  failure of \<open>shutil.move\<close> that the file-system map does not decide (permissions, a
  full or read-only device); \<open>HistoryOpenFault\<close> and \<open>HistoryWriteFault\<close> are a
  failure of \<open>open(history_file_path, "w")\<close> and of \<open>json.dump\<close> after it.
\<close>

datatype exn =
  FileNotFoundError | DestinationExistsError | NotADirectoryError | OSFault
  | HistoryOpenFault | HistoryWriteFault

text \<open>
  What the operating system decides: which moves fail, which writes of the history file
  fail (by the content written), whether removing the history file and writing a log
  file fail, and \<open>os.path.normpath\<close>.
\<close>

record os_env =
  move_fault :: "path \<Rightarrow> path \<Rightarrow> bool"
  history_write_fault :: "(path \<times> path) list \<Rightarrow> exn option"
  history_remove_fault :: bool
  log_write_fault :: bool
  normpath :: "path \<Rightarrow> path"

text \<open>
  \<open>shutil.move(src, dst)\<close>: into \<open>dst\<close> when it is a directory (refusing an existing
  entry of that name), else \<open>os.rename\<close>, which replaces an existing file.
\<close>

definition os_rename :: "filesystem \<Rightarrow> path \<Rightarrow> path \<Rightarrow> exn + filesystem" where
  "os_rename fs src real_dst =
     (case fmlookup fs src of
        None \<Rightarrow> Inl FileNotFoundError
      | Some Directory \<Rightarrow>
          (if path_exists fs real_dst \<and> src \<noteq> real_dst then Inl NotADirectoryError
           else Inr (fmupd real_dst Directory (fmdrop src fs)))
      | Some (RegularFile c) \<Rightarrow> Inr (fmupd real_dst (RegularFile c) (fmdrop src fs)))"

definition move :: "os_env \<Rightarrow> filesystem \<Rightarrow> path \<Rightarrow> path \<Rightarrow> exn + filesystem" where
  "move env fs src dst =
     (if move_fault env src dst then Inl OSFault
      else if isdir fs dst then
        (if src = dst then Inr fs
         else let real_dst = path_join dst (basename src)
              in if path_exists fs real_dst then Inl DestinationExistsError
                 else os_rename fs src real_dst)
      else os_rename fs src dst)"

subsection \<open>The progress percentage: binary64 arithmetic\<close>

text \<open>
  Line 1617 and line 1678 compute \<open>int((processed_count / total_files) * 100)\<close>. The
  division of two Python integers and the product with \<open>100\<close> are IEEE 754 binary64
  operations: each returns the exact result rounded to 53 significant bits, ties to even;
  \<open>int\<close> then truncates toward zero. A double is represented by the rational number it
  stands for. Overflow and subnormal numbers are not modelled: the values stay between
  \<open>1 / total_files\<close> and \<open>100\<close>.
\<close>

definition round_half_even :: "rat \<Rightarrow> int" where
  "round_half_even x =
     (let f = \<lfloor>x\<rfloor>; r = x - of_int f
      in if r < 1 / 2 then f else if 1 / 2 < r then f + 1 else if even f then f else f + 1)"

function bit_length :: "nat \<Rightarrow> nat" where
  "bit_length n = (if n = 0 then 0 else Suc (bit_length (n div 2)))"
  by pat_completeness auto
termination
  by (relation "measure id") auto

text \<open>The least \<open>j \<ge> k\<close> with \<open>1 \<le> x * 2 ^ j\<close>, for a positive \<open>x\<close>.\<close>

function lead_shift :: "rat \<Rightarrow> nat \<Rightarrow> nat" where
  "lead_shift x k = (if x \<le> 0 \<or> 1 \<le> x * 2 ^ k then k else lead_shift x (Suc k))"
  by pat_completeness auto
termination
proof (relation "measure (\<lambda>(x, k). nat \<lceil>1 / (x * 2 ^ k)\<rceil>)", goal_cases)
  case 1
  then show ?case by simp
next
  case (2 x k)
  then have x: "0 < x" and lt: "x * 2 ^ k < 1" by auto
  define y where "y = 1 / (x * 2 ^ k)"
  have y1: "1 < y" using x lt by (simp add: y_def)
  have eq: "1 / (x * 2 ^ Suc k) = y / 2" by (simp add: y_def)
  define c where "c = \<lceil>y\<rceil>"
  have c2: "2 \<le> c" using y1 by (simp add: c_def le_ceiling_iff)
  have a: "y \<le> of_int c" by (simp add: c_def)
  have "\<lceil>y / 2\<rceil> < \<lceil>y\<rceil>"
  proof -
    have "(2::rat) \<le> of_int c" using c2 by simp
    with a have "y / 2 \<le> of_int c - 1" by linarith
    then have "y / 2 \<le> of_int (c - 1)" by simp
    then have "\<lceil>y / 2\<rceil> \<le> c - 1" by (simp only: ceiling_le_iff)
    then show ?thesis by (simp add: c_def)
  qed
  moreover have "0 < \<lceil>y\<rceil>" using y1 by (simp add: less_ceiling_iff)
  ultimately show ?case by (simp add: eq y_def[symmetric] del: power_Suc)
qed

declare bit_length.simps [simp del]
declare lead_shift.simps [simp del]

text \<open>The binary exponent \<open>e\<close> of a positive \<open>x\<close>: \<open>2 ^ e \<le> x < 2 ^ (e + 1)\<close>.\<close>

definition exponent2 :: "rat \<Rightarrow> int" where
  "exponent2 x =
     (if 1 \<le> x then int (bit_length (nat \<lfloor>x\<rfloor>)) - 1 else - int (lead_shift x 0))"

text \<open>Rounding to the nearest double: 53 bits from the leading one, ties to even.\<close>

definition fl :: "rat \<Rightarrow> rat" where
  "fl x = (if x = 0 then 0
           else let u = power_int 2 (exponent2 \<bar>x\<bar> - 52)
                in of_int (round_half_even (x / u)) * u)"

definition trunc :: "rat \<Rightarrow> int" where
  "trunc x = (if 0 \<le> x then \<lfloor>x\<rfloor> else \<lceil>x\<rceil>)"

definition percentage :: "nat \<Rightarrow> nat \<Rightarrow> int" where
  "percentage processed_count total_files =
     trunc (fl (fl (of_nat processed_count / of_nat total_files) * 100))"

text \<open>
  The percentage as the specification words it: the quotient times 100, rounded to the
  nearest integer (\<open>round\<close>, ties to even as Python's).
\<close>

definition rounded_percentage :: "nat \<Rightarrow> nat \<Rightarrow> int" where
  "rounded_percentage processed_count total_files =
     round_half_even (of_nat processed_count / of_nat total_files * 100)"

subsection \<open>The application state\<close>

datatype stored_history = Absent | Stored "(path \<times> path) list" | Corrupt

datatype log_line =
  NotFoundLine string
  | RenamedLine string string
  | ErrorRenamingLine string exn
  | DoneLine
  | LogSavedRenameLine path
  | ConflictListLine "nat list"
  | UndoingLine
  | UndoneLine string string
  | ErrorUndoingLine path exn
  | UndoDoneLine
  | LogSavedUndoLine path

datatype dialog =
  SelectValidFolderBox
  | ForbiddenDirBox
  | MapErrorBox nat nat
  | InvalidCharsBox "char list"
  | ConflictBox nat
  | UndoFailedBox
  | UndoConfirmBox

datatype console_line = CouldNotSaveRenameLog | CouldNotSaveUndoLog

text \<open>
  The fields of \<open>MassRenamerApp\<close> that the five methods read or write, and the files
  they touch. \<open>history_file\<close> is the content of \<open>history_file_path\<close>; \<open>rename_log\<close>
  and \<open>undo_log\<close> are the two log files; \<open>dialogs\<close> lists the message boxes shown, in
  order; \<open>progress_painted\<close> lists the percentages shown by the \<open>processEvents\<close> call
  that ends each item of a loop.
\<close>

record app =
  files :: filesystem
  history_file :: stored_history
  rename_log :: "log_line list option"
  undo_log :: "log_line list option"
  console :: "console_line list"
  config_dir :: path
  app_settings :: settings
  rename_history :: "(path \<times> path) list"
  log_text :: "log_line list"
  text_new :: string
  progress_label :: int
  progress_visible :: bool
  progress_painted :: "int list"
  undo_button_enabled :: bool
  dialogs :: "dialog list"

datatype conflict_button = RenameBtn | ListBtn | CancelBtn | NoBtn

text \<open>
  What the operator supplies to one \<open>rename\<close>: the parsed widgets, the answer to the
  question whether to strip illegal characters, and the button of the conflict box.
\<close>

record rename_input =
  in_folder :: path
  in_origs :: "string list"
  in_news :: "string list"
  answer_strip :: bool
  answer_conflict :: conflict_button

definition appendPlainText :: "log_line \<Rightarrow> app \<Rightarrow> app" where
  "appendPlainText l st = st\<lparr>log_text := log_text st @ [l]\<rparr>"

definition show_dialog :: "dialog \<Rightarrow> app \<Rightarrow> app" where
  "show_dialog d st = st\<lparr>dialogs := dialogs st @ [d]\<rparr>"

text \<open>\<open>_load_history_on_startup\<close>: a file that does not parse is removed.\<close>

definition load_history_on_startup :: "app \<Rightarrow> app" where
  "load_history_on_startup st =
     (case history_file st of
        Absent \<Rightarrow> st
      | Stored h \<Rightarrow>
          (let st1 = st\<lparr>rename_history := h\<rparr>
           in if h \<noteq> [] then st1\<lparr>undo_button_enabled := True\<rparr> else st1)
      | Corrupt \<Rightarrow> st\<lparr>rename_history := [], history_file := Absent\<rparr>)"

subsection \<open>\<open>_get_and_validate_inputs\<close>\<close>

definition get_and_validate_inputs ::
  "os_env \<Rightarrow> app \<Rightarrow> rename_input \<Rightarrow> (path \<times> string list \<times> string list) option \<times> app" where
  "get_and_validate_inputs env st inp =
     (let folder = in_folder inp in
      if folder = [] \<or> \<not> isdir (files st) folder
      then (None, show_dialog SelectValidFolderBox st)
      else if normpath env (config_dir st) = normpath env folder
      then (None, show_dialog ForbiddenDirBox st)
      else
        let origs = in_origs inp; news = in_news inp in
        if length origs \<noteq> length news
        then (None, show_dialog (MapErrorBox (length origs) (length news)) st)
        else
          let found = found_illegal (app_settings st) news in
          if found \<noteq> [] then
            (let st1 = show_dialog (InvalidCharsBox found) st in
             if answer_strip inp then
               (let news1 = strip_illegal (app_settings st) news
                in (Some (folder, origs, news1), st1\<lparr>text_new := join_lines news1\<rparr>))
             else (None, st1))
          else (Some (folder, origs, news), st))"

subsection \<open>\<open>_handle_name_conflicts\<close>\<close>

text \<open>
  \<open>conflicting_indices\<close> is a Python set of integers: here a list without repetition,
  sorted before use as the source does.
\<close>

definition set_add :: "nat \<Rightarrow> nat list \<Rightarrow> nat list" where
  "set_add i s = (if i \<in> set s then s else s @ [i])"

text \<open>Lines 1533 to 1535: the names that exist in the folder.\<close>

definition existing_conflicts :: "filesystem \<Rightarrow> path \<Rightarrow> string list \<Rightarrow> nat list" where
  "existing_conflicts fs folder news =
     foldl (\<lambda>acc (i, name). if path_exists fs (path_join folder name) then set_add i acc else acc)
       [] (enumerate 0 news)"

text \<open>\<open>Counter(news).items()\<close>: each name once, in order of first occurrence, with its count.\<close>

fun counter_add :: "string \<Rightarrow> (string \<times> nat) list \<Rightarrow> (string \<times> nat) list" where
  "counter_add x [] = [(x, 1)]"
| "counter_add x ((y, c) # ys) = (if x = y then (y, c + 1) # ys else (y, c) # counter_add x ys)"

definition Counter :: "string list \<Rightarrow> (string \<times> nat) list" where
  "Counter xs = foldl (\<lambda>acc x. counter_add x acc) [] xs"

text \<open>Lines 1538 to 1544: every index of a name that occurs more than once.\<close>

definition duplicate_conflicts :: "string list \<Rightarrow> nat list \<Rightarrow> nat list" where
  "duplicate_conflicts news acc0 =
     foldl (\<lambda>acc (name, count).
              if count > 1
              then foldl (\<lambda>acc' (i, n). if n = name then set_add i acc' else acc')
                     acc (enumerate 0 news)
              else acc)
       acc0 (Counter news)"

definition conflicting_indices :: "filesystem \<Rightarrow> path \<Rightarrow> string list \<Rightarrow> nat list" where
  "conflicting_indices fs folder news =
     duplicate_conflicts news (existing_conflicts fs folder news)"

text \<open>Line 1549: the conflicts, by ascending index, each with the name at that index.\<close>

definition conflicts_of :: "string list \<Rightarrow> nat list \<Rightarrow> (string \<times> nat) list" where
  "conflicts_of news ci = map (\<lambda>i. (news ! i, i)) (sort ci)"

text \<open>Line 1575: the candidate \<open>f"{base}_({count}){ext}"\<close>.\<close>

definition candidate :: "string \<Rightarrow> string \<Rightarrow> nat \<Rightarrow> string" where
  "candidate base ext count = base @ ''_('' @ str_nat count @ '')'' @ ext"

definition taken :: "filesystem \<Rightarrow> path \<Rightarrow> string list \<Rightarrow> string \<Rightarrow> bool" where
  "taken fs folder temp_news new_name =
     (\<not> (\<not> path_exists fs (path_join folder new_name) \<and> new_name \<notin> set temp_news))"


text \<open>
  The search of lines 1573 to 1580 runs until a candidate is free. It ends because the
  candidates of different counts are different strings, while the folder and the list
  hold finitely many names; the lemmas here are what the termination proof needs.
\<close>

declare str_nat.simps [simp del]

definition str_val :: "string \<Rightarrow> nat" where
  "str_val s = foldl (\<lambda>a c. 10 * a + (of_char c - 48)) 0 s"

lemma digit_val: "d < 10 \<Longrightarrow> of_char (digit_char d) - 48 = d"
proof -
  assume "d < 10"
  then have "d \<in> {0, 1, 2, 3, 4, 5, 6, 7, 8, 9}" by auto
  then show ?thesis by (auto simp: digit_char_def)
qed

lemma str_val_str_nat: "str_val (str_nat n) = n"
proof (induction n rule: str_nat.induct)
  case (1 n)
  show ?case
  proof (cases "n < 10")
    case True
    then show ?thesis by (simp add: str_nat.simps[of n] str_val_def digit_val)
  next
    case False
    have "str_val (str_nat n) = 10 * str_val (str_nat (n div 10)) + (of_char (digit_char (n mod 10)) - 48)"
      using False by (simp add: str_nat.simps[of n] str_val_def)
    also have "\<dots> = 10 * (n div 10) + n mod 10"
      using 1 False by (simp add: digit_val)
    finally show ?thesis by simp
  qed
qed

lemma str_nat_inj: "str_nat a = str_nat b \<Longrightarrow> a = b"
  by (metis str_val_str_nat)

lemma candidate_inj: "candidate base ext a = candidate base ext b \<Longrightarrow> a = b"
  by (simp add: candidate_def str_nat_inj)

lemma take1_candidate: "take 1 (candidate base ext a) = take 1 (candidate base ext b)"
  by (cases base) (simp_all add: candidate_def)

lemma path_join_candidate_inj:
  "path_join folder (candidate base ext a) = path_join folder (candidate base ext b) \<Longrightarrow> a = b"
  using take1_candidate[of base ext a b]
  by (auto simp: path_join_def dest: candidate_inj split: if_splits)

lemma finite_taken: "finite {j. taken fs folder temp_news (candidate base ext j)}"
proof -
  have "{j. taken fs folder temp_news (candidate base ext j)} \<subseteq>
        (\<lambda>j. path_join folder (candidate base ext j)) -` fmdom' fs \<union>
        (\<lambda>j. candidate base ext j) -` set temp_news"
    by (auto simp: taken_def path_exists_def fmlookup_dom'_iff)
  moreover have "finite ((\<lambda>j. path_join folder (candidate base ext j)) -` fmdom' fs)"
    by (rule finite_vimageI) (auto simp: inj_on_def dest: path_join_candidate_inj)
  moreover have "finite ((\<lambda>j. candidate base ext j) -` set temp_news)"
    by (rule finite_vimageI) (auto simp: inj_on_def dest: candidate_inj)
  ultimately show ?thesis by (meson finite_UnI finite_subset)
qed

function find_free :: "filesystem \<Rightarrow> path \<Rightarrow> string \<Rightarrow> string \<Rightarrow> string list \<Rightarrow> nat \<Rightarrow> string" where
  "find_free fs folder base ext temp_news count =
     (let new_name = candidate base ext count
      in if \<not> path_exists fs (path_join folder new_name) \<and> new_name \<notin> set temp_news
         then new_name
         else find_free fs folder base ext temp_news (count + 1))"
  by pat_completeness auto
termination
proof (relation "measure (\<lambda>(fs, folder, base, ext, temp_news, count).
         card {j. count \<le> j \<and> taken fs folder temp_news (candidate base ext j)})", goal_cases)
  case 1
  then show ?case by simp
next
  case (2 fs folder base ext temp_news count new_name)
  let ?T = "\<lambda>k. {j. k \<le> j \<and> taken fs folder temp_news (candidate base ext j)}"
  have t: "taken fs folder temp_news (candidate base ext count)"
    using 2 by (simp add: taken_def)
  have fin: "finite (?T count)"
    by (rule finite_subset[OF _ finite_taken[of fs folder temp_news base ext]]) auto
  have "count \<in> ?T count" "count \<notin> ?T (count + 1)" "?T (count + 1) \<subseteq> ?T count"
    using t by auto
  then have "?T (count + 1) \<subset> ?T count"
    by blast
  then have "card (?T (count + 1)) < card (?T count)"
    using fin by (rule psubset_card_mono[rotated])
  then show ?case by simp
qed


declare find_free.simps [simp del]

text \<open>Lines 1571 to 1580, one conflict: the name at its index becomes the free candidate.\<close>

definition resolve_conflict ::
  "filesystem \<Rightarrow> path \<Rightarrow> string list \<Rightarrow> string \<times> nat \<Rightarrow> string list" where
  "resolve_conflict fs folder temp_news c =
     (let (base, ext) = splitext (fst c)
      in temp_news[snd c := find_free fs folder base ext temp_news 1])"

definition auto_resolve ::
  "filesystem \<Rightarrow> path \<Rightarrow> string list \<Rightarrow> (string \<times> nat) list \<Rightarrow> string list" where
  "auto_resolve fs folder news conflicts = foldl (resolve_conflict fs folder) news conflicts"

definition handle_name_conflicts ::
  "app \<Rightarrow> string list \<Rightarrow> path \<Rightarrow> conflict_button \<Rightarrow> string list option \<times> app" where
  "handle_name_conflicts st news folder clicked =
     (let ci = conflicting_indices (files st) folder news in
      if ci = [] then (Some news, st)
      else
        let conflicts = conflicts_of news ci;
            st1 = show_dialog (ConflictBox (length conflicts)) st
        in case clicked of
             ListBtn \<Rightarrow>
               (None, st1\<lparr>log_text := [ConflictListLine (map (\<lambda>c. snd c + 1) conflicts)]\<rparr>)
           | CancelBtn \<Rightarrow> (None, st1)
           | RenameBtn \<Rightarrow>
               (let temp_news = auto_resolve (files st) folder news conflicts
                in (Some temp_news, st1\<lparr>text_new := join_lines temp_news\<rparr>))
           | NoBtn \<Rightarrow> (None, st1))"

subsection \<open>\<open>_execute_rename\<close>\<close>

text \<open>
  Lines 1597 and 1686: \<open>os.remove(history_file_path)\<close> with every \<open>OSError\<close> ignored.
\<close>

definition remove_history_file :: "os_env \<Rightarrow> stored_history \<Rightarrow> stored_history" where
  "remove_history_file env h = (if history_remove_fault env then h else Absent)"

text \<open>
  Lines 1609 and 1610: the file is opened for writing, which empties it, and the whole
  list is dumped. A failure of \<open>open\<close> leaves the file as it was; a failure after it
  leaves a file that does not parse.
\<close>

definition write_history ::
  "os_env \<Rightarrow> stored_history \<Rightarrow> (path \<times> path) list \<Rightarrow> exn option \<times> stored_history" where
  "write_history env old h =
     (case history_write_fault env h of
        None \<Rightarrow> (None, Stored h)
      | Some e \<Rightarrow> (Some e, if e = HistoryOpenFault then old else Corrupt))"

text \<open>
  Lines 1601 to 1619, one item of the loop. The loop state is the application state, the
  local \<open>temp_history\<close> and \<open>processed_count\<close>. The move, the append to
  \<open>temp_history\<close>, the write of the history file and the success line stand in one
  \<open>try\<close> block with one handler.
\<close>

definition rename_item ::
  "os_env \<Rightarrow> path \<Rightarrow> nat \<Rightarrow> app \<times> (path \<times> path) list \<times> nat \<Rightarrow> string \<times> string
   \<Rightarrow> app \<times> (path \<times> path) list \<times> nat" where
  "rename_item env folder total_files ls item =
     (let (st, temp_history, processed_count) = ls;
          (o_name, n_name) = item;
          src = path_join folder o_name;
          dst = path_join folder n_name;
          (st1, temp1) =
            (if \<not> isfile (files st) src
             then (appendPlainText (NotFoundLine o_name) st, temp_history)
             else
               (case move env (files st) src dst of
                  Inl e \<Rightarrow> (appendPlainText (ErrorRenamingLine o_name e) st, temp_history)
                | Inr fs' \<Rightarrow>
                    (let temp' = temp_history @ [(dst, src)];
                         (err, hf) = write_history env (history_file st) temp';
                         st' = st\<lparr>files := fs', history_file := hf\<rparr>
                     in case err of
                          None \<Rightarrow> (appendPlainText (RenamedLine o_name n_name) st', temp')
                        | Some e \<Rightarrow> (appendPlainText (ErrorRenamingLine o_name e) st', temp'))));
          processed' = processed_count + 1;
          pct = percentage processed' total_files
      in (st1\<lparr>progress_label := pct, progress_painted := progress_painted st1 @ [pct]\<rparr>,
          temp1, processed'))"

definition rename_loop ::
  "os_env \<Rightarrow> path \<Rightarrow> nat \<Rightarrow> app \<times> (path \<times> path) list \<times> nat \<Rightarrow> (string \<times> string) list
   \<Rightarrow> app \<times> (path \<times> path) list \<times> nat" where
  "rename_loop env folder total_files ls items = foldl (rename_item env folder total_files) ls items"

definition save_rename_log :: "os_env \<Rightarrow> app \<Rightarrow> app" where
  "save_rename_log env st =
     (let rename_log_path = path_join (config_dir st) ''rename.log'';
          st1 = appendPlainText (LogSavedRenameLine rename_log_path) st
      in if log_write_fault env then st1\<lparr>console := console st1 @ [CouldNotSaveRenameLog]\<rparr>
         else st1\<lparr>rename_log := Some (log_text st1)\<rparr>)"

definition execute_rename :: "os_env \<Rightarrow> app \<Rightarrow> path \<Rightarrow> string list \<Rightarrow> string list \<Rightarrow> app" where
  "execute_rename env st folder origs news =
     (let st0 = st\<lparr>log_text := []\<rparr>;
          total_files = length origs
      in if total_files = 0 then appendPlainText DoneLine st0
         else
           let st1 = st0\<lparr>progress_label := 0, progress_visible := True\<rparr>;
               st2 = st1\<lparr>history_file := remove_history_file env (history_file st1)\<rparr>;
               (st3, temp_history, processed_count) =
                 rename_loop env folder total_files (st2, [], 0) (zip origs news);
               st4 = st3\<lparr>rename_history := rename_history st3 @ temp_history\<rparr>;
               st5 = (if rename_history st4 \<noteq> [] then st4\<lparr>undo_button_enabled := True\<rparr>
                      else st4);
               st6 = appendPlainText DoneLine st5
           in save_rename_log env st6)"

subsection \<open>\<open>rename\<close>\<close>

definition rename :: "os_env \<Rightarrow> rename_input \<Rightarrow> app \<Rightarrow> app" where
  "rename env inp st =
     (let st0 = st\<lparr>rename_history := [], progress_visible := False\<rparr>
      in case get_and_validate_inputs env st0 inp of
           (None, st1) \<Rightarrow> st1
         | (Some (folder, origs, news), st1) \<Rightarrow>
             (case handle_name_conflicts st1 news folder (answer_conflict inp) of
                (None, st2) \<Rightarrow> st2
              | (Some news', st2) \<Rightarrow> execute_rename env st2 folder origs news'))"

subsection \<open>\<open>undo\<close>\<close>

text \<open>Lines 1641 to 1645: the safety check, stopping at the first missing path.\<close>

fun all_files_exist :: "filesystem \<Rightarrow> (path \<times> path) list \<Rightarrow> bool" where
  "all_files_exist fs [] = True"
| "all_files_exist fs ((new_path, orig_path) # rest) =
     (if \<not> path_exists fs new_path then False else all_files_exist fs rest)"

text \<open>Lines 1669 to 1680, one item of the loop over the reversed history.\<close>

definition undo_item :: "os_env \<Rightarrow> nat \<Rightarrow> app \<times> nat \<Rightarrow> path \<times> path \<Rightarrow> app \<times> nat" where
  "undo_item env total_files ls item =
     (let (st, processed_count) = ls;
          (dst, src) = item;
          st1 = (case move env (files st) dst src of
                   Inr fs' \<Rightarrow>
                     appendPlainText (UndoneLine (basename dst) (basename src)) (st\<lparr>files := fs'\<rparr>)
                 | Inl e \<Rightarrow> appendPlainText (ErrorUndoingLine dst e) st);
          processed' = processed_count + 1;
          pct = percentage processed' total_files
      in (st1\<lparr>progress_label := pct, progress_painted := progress_painted st1 @ [pct]\<rparr>,
          processed'))"

definition undo_loop :: "os_env \<Rightarrow> nat \<Rightarrow> app \<times> nat \<Rightarrow> (path \<times> path) list \<Rightarrow> app \<times> nat" where
  "undo_loop env total_files ls items = foldl (undo_item env total_files) ls items"

definition save_undo_log :: "os_env \<Rightarrow> app \<Rightarrow> app" where
  "save_undo_log env st =
     (let undo_log_path = path_join (config_dir st) ''undo.log'';
          st1 = appendPlainText (LogSavedUndoLine undo_log_path) st
      in if log_write_fault env then st1\<lparr>console := console st1 @ [CouldNotSaveUndoLog]\<rparr>
         else st1\<lparr>undo_log := Some (log_text st1)\<rparr>)"

text \<open>\<open>confirm\<close> is the answer to the question box: \<open>True\<close> for Yes.\<close>

definition undo :: "os_env \<Rightarrow> bool \<Rightarrow> app \<Rightarrow> app" where
  "undo env confirm st =
     (let st0 = st\<lparr>progress_visible := False\<rparr>
      in if rename_history st0 = [] then st0
         else if \<not> all_files_exist (files st0) (rename_history st0)
         then show_dialog UndoFailedBox st0
         else
           let st1 = show_dialog UndoConfirmBox st0
           in if \<not> confirm then st1
              else
                let st2 = st1\<lparr>log_text := [UndoingLine]\<rparr>;
                    total_files = length (rename_history st2)
                in if total_files = 0 then st2
                   else
                     let st3 = st2\<lparr>progress_label := 0, progress_visible := True\<rparr>;
                         (st4, processed_count) =
                           undo_loop env total_files (st3, 0) (rev (rename_history st3));
                         st5 = appendPlainText UndoDoneLine st4;
                         st6 = st5\<lparr>rename_history := [], undo_button_enabled := False\<rparr>;
                         st7 = st6\<lparr>history_file := remove_history_file env (history_file st6)\<rparr>
                     in save_undo_log env st7)"


subsection \<open>Concrete inputs\<close>

text \<open>
  An environment without faults, and a session whose folder \<open>/d\<close> holds \<open>a.txt\<close> and
  \<open>b.txt\<close> while the history, in memory and on disk, is that of an earlier batch whose
  renamed file \<open>/d/gone.txt\<close> is no longer there.
\<close>

definition example_env :: os_env where
  "example_env =
     \<lparr>move_fault = (\<lambda>src dst. False), history_write_fault = (\<lambda>h. None),
      history_remove_fault = False, log_write_fault = False, normpath = (\<lambda>p. p)\<rparr>"

definition example_files :: filesystem where
  "example_files =
     fmupd ''/d'' Directory
       (fmupd ''/d/a.txt'' (RegularFile ''A'')
          (fmupd ''/d/b.txt'' (RegularFile ''B'') fmempty))"

definition example_app :: app where
  "example_app =
     \<lparr>files = example_files,
      history_file = Stored [(''/d/gone.txt'', ''/d/was.txt'')],
      rename_log = None, undo_log = None, console = [],
      config_dir = ''/cfg'', app_settings = all_disabled,
      rename_history = [(''/d/gone.txt'', ''/d/was.txt'')],
      log_text = [], text_new = [], progress_label = 0, progress_visible = False,
      progress_painted = [], undo_button_enabled = True, dialogs = []\<rparr>"

text \<open>The same session with a file \<open>x_(1).txt\<close> in the folder (and no \<open>x.txt\<close>).\<close>

definition suffix_taken_app :: app where
  "suffix_taken_app =
     example_app\<lparr>files := fmupd ''/d/x_(1).txt'' (RegularFile ''X'') example_files\<rparr>"

definition example_input :: rename_input where
  "example_input =
     \<lparr>in_folder = ''/d'', in_origs = [''a.txt'', ''b.txt''], in_news = [''x.txt'', ''y.txt''],
      answer_strip = False, answer_conflict = CancelBtn\<rparr>"

definition empty_input :: rename_input where
  "empty_input =
     \<lparr>in_folder = ''/d'', in_origs = [], in_news = [],
      answer_strip = False, answer_conflict = CancelBtn\<rparr>"

definition mismatch_input :: rename_input where
  "mismatch_input =
     \<lparr>in_folder = ''/d'', in_origs = [''a.txt'', ''b.txt''], in_news = [''x.txt''],
      answer_strip = False, answer_conflict = CancelBtn\<rparr>"


subsection \<open>Environments with faults\<close>

text \<open>
  \<open>without_write_faults\<close> is the same environment with every write of the history file
  succeeding. In \<open>write_fault_env\<close> the first write of the history file fails after the
  file was opened; in \<open>move_fault_env\<close> every move fails.
\<close>

definition without_write_faults :: "os_env \<Rightarrow> os_env" where
  "without_write_faults env = env\<lparr>history_write_fault := (\<lambda>h. None)\<rparr>"

definition write_fault_env :: os_env where
  "write_fault_env =
     example_env\<lparr>history_write_fault :=
       (\<lambda>h. if length h = 1 then Some HistoryWriteFault else None)\<rparr>"

definition move_fault_env :: os_env where
  "move_fault_env = example_env\<lparr>move_fault := (\<lambda>src dst. True)\<rparr>"

text \<open>
  Two log lines of one item in two runs: the same line, or the error line of the item
  where the other run has its success line.
\<close>

definition same_or_error_for_success :: "log_line \<Rightarrow> log_line \<Rightarrow> bool" where
  "same_or_error_for_success l l' =
     (l = l' \<or> (\<exists>o_name n_name e. l = ErrorRenamingLine o_name e \<and> l' = RenamedLine o_name n_name))"


text \<open>
  Two states agree up to the history file and the log files when the files, the history
  in memory, the progress shown, the console, the dialogs and the undo button are the
  same and the logs match line by line.
\<close>

definition agree_but_history_file :: "app \<Rightarrow> app \<Rightarrow> bool" where
  "agree_but_history_file s s' =
     (files s = files s' \<and> rename_history s = rename_history s' \<and>
      progress_painted s = progress_painted s' \<and> progress_label s = progress_label s' \<and>
      progress_visible s = progress_visible s' \<and>
      console s = console s' \<and> dialogs s = dialogs s' \<and>
      undo_button_enabled s = undo_button_enabled s' \<and> config_dir s = config_dir s' \<and>
      list_all2 same_or_error_for_success (log_text s) (log_text s'))"


subsection \<open>Conflict resolution as the specification words it\<close>

text \<open>
  The conflict set: the indices whose new name exists in the folder or is the new name
  of another index. The first free candidate: the candidate of the least \<open>k \<ge> 1\<close> that
  neither exists in the folder nor is a name of the working plan. The resolution: the
  conflicting indices in ascending order, each given its first free candidate in the
  working plan before the next is visited.
\<close>

definition spec_conflict_set :: "filesystem \<Rightarrow> path \<Rightarrow> string list \<Rightarrow> nat set" where
  "spec_conflict_set fs folder plan =
     {i. i < length plan \<and>
         (path_exists fs (path_join folder (plan ! i)) \<or>
          (\<exists>j. j < length plan \<and> j \<noteq> i \<and> plan ! j = plan ! i))}"

definition spec_first_free ::
  "filesystem \<Rightarrow> path \<Rightarrow> string \<Rightarrow> string \<Rightarrow> string list \<Rightarrow> string" where
  "spec_first_free fs folder base ext plan =
     candidate base ext
       (LEAST k. 1 \<le> k \<and> \<not> path_exists fs (path_join folder (candidate base ext k)) \<and>
                 candidate base ext k \<notin> set plan)"

text \<open>
  The split of a name at its last extension separator, read to the letter: at the last
  dot of the name, and no split when the name has no dot.
\<close>

definition split_at_last_dot :: "string \<Rightarrow> string \<times> string" where
  "split_at_last_dot name =
     (if CHR ''.'' \<in> set name
      then (let e = takeWhile (\<lambda>c. c \<noteq> CHR ''.'') (rev name);
                d = length name - length e - 1
            in (take d name, drop d name))
      else (name, []))"

text \<open>
  The split with the leading dots of a name not counted as separators: at the last dot,
  when the name still holds a dot after its leading dots; no split otherwise.
\<close>

definition spec_splitext :: "string \<Rightarrow> string \<times> string" where
  "spec_splitext name =
     (if CHR ''.'' \<in> set (dropWhile (\<lambda>c. c = CHR ''.'') name)
      then split_at_last_dot name
      else (name, []))"

definition spec_resolve_one :: "filesystem \<Rightarrow> path \<Rightarrow> string list \<Rightarrow> nat \<Rightarrow> string list" where
  "spec_resolve_one fs folder plan i =
     (let (base, ext) = spec_splitext (plan ! i)
      in plan[i := spec_first_free fs folder base ext plan])"

definition spec_auto_resolve :: "filesystem \<Rightarrow> path \<Rightarrow> string list \<Rightarrow> string list" where
  "spec_auto_resolve fs folder plan =
     foldl (spec_resolve_one fs folder) plan
       (sorted_list_of_set (spec_conflict_set fs folder plan))"


subsection \<open>The moves a log reports\<close>

text \<open>
  The pairs \<open>(new path, original path)\<close> of the success lines of a log, in order.
\<close>

definition moved_pairs :: "path \<Rightarrow> log_line list \<Rightarrow> (path \<times> path) list" where
  "moved_pairs folder lg =
     concat (map (\<lambda>l. case l of
                        RenamedLine o_name n_name \<Rightarrow>
                          [(path_join folder n_name, path_join folder o_name)]
                      | _ \<Rightarrow> []) lg)"






section \<open>Theorems\<close>

subsection \<open>Character policy\<close>

lemmas illegal_sets_defs =
  ILLEGAL_CHARS_LINUX_def ILLEGAL_CHARS_WINDOWS_def ILLEGAL_CHARS_MACOS_def
  ILLEGAL_CHARS_IOS_def ILLEGAL_CHARS_ANDROID_def

lemma illegal_chars_eq: "illegal_chars s = ILLEGAL_CHARS_LINUX \<union> enabled_union s"
  by (auto simp: illegal_chars_def enabled_union_def Let_def)


text \<open>
  C8, as stated, fails: with all four options disabled the set the names are scanned
  against is not empty but holds the slash, and the name \<open>a/b\<close> does not pass.
\<close>

theorem C8_all_disabled_counterexample:
  "illegal_chars all_disabled = {CHR ''/''} \<and>
   enabled_union all_disabled = {} \<and>
   illegal_chars all_disabled \<noteq> enabled_union all_disabled \<and>
   found_illegal all_disabled [''a/b''] = ''/''"
  by (simp add: illegal_chars_def enabled_union_def all_disabled_def found_illegal_def
      ILLEGAL_CHARS_LINUX_def)

text \<open>
  C8, amended: for every configuration of the four options the set the names are scanned
  against is the Linux set (the slash) together with the union of the enabled platforms'
  sets; it equals that union as soon as one option is enabled, and it is the slash alone
  when none is; a list of names passes exactly when none of its characters is in the set.
\<close>

theorem C8_illegal_chars_policy:
  "illegal_chars s = {CHR ''/''} \<union> enabled_union s \<and>
   (if disallow_windows_chars s \<or> disallow_macos_chars s \<or> disallow_ios_chars s \<or>
       disallow_android_chars s
    then illegal_chars s = enabled_union s
    else illegal_chars s = {CHR ''/''}) \<and>
   (found_illegal s news = [] \<longleftrightarrow> (\<Union>(set ` set news)) \<inter> illegal_chars s = {})"
proof -
  have a: "illegal_chars s = {CHR ''/''} \<union> enabled_union s"
    by (simp add: illegal_chars_eq ILLEGAL_CHARS_LINUX_def)
  have b: "disallow_windows_chars s \<or> disallow_macos_chars s \<or> disallow_ios_chars s \<or>
       disallow_android_chars s \<Longrightarrow> CHR ''/'' \<in> enabled_union s"
    by (auto simp: enabled_union_def illegal_sets_defs)
  have c: "\<not> (disallow_windows_chars s \<or> disallow_macos_chars s \<or> disallow_ios_chars s \<or>
       disallow_android_chars s) \<Longrightarrow> enabled_union s = {}"
    by (simp add: enabled_union_def)
  have d: "found_illegal s news = [] \<longleftrightarrow> (\<Union>(set ` set news)) \<inter> illegal_chars s = {}"
    by (auto simp: found_illegal_def filter_empty_conv)
  show ?thesis using a b c d by auto
qed

subsection \<open>The history file at the start of a batch\<close>

lemmas example_defs = example_env_def example_files_def example_app_def example_input_def
  empty_input_def mismatch_input_def all_disabled_def

text \<open>
  C6, as stated, fails for the empty plan: \<open>_execute_rename\<close> returns at line 1591,
  before the removal of line 1597, and the history file of the earlier batch is still there.
\<close>

theorem C6_empty_plan_counterexample:
  "history_file (execute_rename example_env example_app ''/d'' [] []) =
     Stored [(''/d/gone.txt'', ''/d/was.txt'')] \<and>
   history_file (rename example_env empty_input example_app) =
     Stored [(''/d/gone.txt'', ''/d/was.txt'')] \<and>
   log_text (rename example_env empty_input example_app) = [DoneLine]"
  by code_simp

text \<open>
  C6, amended: for every non-empty plan reaching execution the history file of the earlier
  batch is removed before the first move, unless the operating system refuses the removal:
  the whole outcome is the one obtained from a state without a history file. For the empty
  plan the executor returns before the removal and leaves the history file as it was.
\<close>

theorem C6_history_reset:
  "(origs \<noteq> [] \<and> \<not> history_remove_fault env \<longrightarrow>
      execute_rename env st folder origs news =
      execute_rename env (st\<lparr>history_file := Absent\<rparr>) folder origs news) \<and>
   history_file (execute_rename env st folder [] news) = history_file st"
  by (simp add: execute_rename_def remove_history_file_def appendPlainText_def Let_def)

theorem C6_history_reset_witness:
  "[''a.txt'', ''b.txt''] \<noteq> [] \<and> \<not> history_remove_fault example_env \<and>
   execute_rename example_env example_app ''/d'' [''a.txt'', ''b.txt''] [''x.txt'', ''y.txt''] =
   execute_rename example_env (example_app\<lparr>history_file := Absent\<rparr>) ''/d''
     [''a.txt'', ''b.txt''] [''x.txt'', ''y.txt''] \<and>
   history_file (execute_rename example_env example_app ''/d'' [''a.txt'', ''b.txt''] [''x.txt'', ''y.txt'']) =
     Stored [(''/d/x.txt'', ''/d/a.txt''), (''/d/y.txt'', ''/d/b.txt'')]"
proof -
  have h: "[''a.txt'', ''b.txt''] \<noteq> ([]::string list) \<and> \<not> history_remove_fault example_env"
    by (simp add: example_env_def)
  have e: "history_file (execute_rename example_env example_app ''/d'' [''a.txt'', ''b.txt''] [''x.txt'', ''y.txt'']) =
     Stored [(''/d/x.txt'', ''/d/a.txt''), (''/d/y.txt'', ''/d/b.txt'')]"
    by code_simp
  show ?thesis
    using h e C6_history_reset[of "[''a.txt'', ''b.txt'']" example_env example_app "''/d''" "[''x.txt'', ''y.txt'']"]
    by blast
qed

subsection \<open>Undo: the safety check\<close>

lemma all_files_exist_iff:
  "all_files_exist fs h \<longleftrightarrow> (\<forall>x \<in> set h. path_exists fs (fst x))"
  by (induction fs h rule: all_files_exist.induct) auto

text \<open>
  C2: when the stored history is not empty and one of its recorded current paths does not
  exist, \<open>undo\<close> only shows the failure box. It does not ask for confirmation (so the
  answer plays no role), it moves no file, and the history in memory, the history file
  and the log stay as they were.
\<close>

theorem C2_undo_refused_when_path_missing:
  assumes "rename_history st \<noteq> []"
    and "\<exists>x \<in> set (rename_history st). \<not> path_exists (files st) (fst x)"
  shows "undo env confirm st = show_dialog UndoFailedBox (st\<lparr>progress_visible := False\<rparr>) \<and>
         dialogs (undo env confirm st) = dialogs st @ [UndoFailedBox] \<and>
         files (undo env confirm st) = files st \<and>
         rename_history (undo env confirm st) = rename_history st \<and>
         history_file (undo env confirm st) = history_file st \<and>
         log_text (undo env confirm st) = log_text st"
proof -
  have "\<not> all_files_exist (files st) (rename_history st)"
    using assms(2) by (simp add: all_files_exist_iff)
  then have "undo env confirm st = show_dialog UndoFailedBox (st\<lparr>progress_visible := False\<rparr>)"
    using assms(1) by (simp add: undo_def Let_def)
  then show ?thesis by (simp add: show_dialog_def)
qed

theorem C2_undo_refused_witness:
  "rename_history example_app \<noteq> [] \<and>
   (\<exists>x \<in> set (rename_history example_app). \<not> path_exists (files example_app) (fst x)) \<and>
   dialogs (undo example_env True example_app) = [UndoFailedBox] \<and>
   files (undo example_env True example_app) = example_files \<and>
   rename_history (undo example_env True example_app) = [(''/d/gone.txt'', ''/d/was.txt'')] \<and>
   history_file (undo example_env True example_app) = Stored [(''/d/gone.txt'', ''/d/was.txt'')]"
proof -
  have h1: "rename_history example_app \<noteq> []"
    by (simp add: example_app_def)
  have h2: "\<exists>x \<in> set (rename_history example_app). \<not> path_exists (files example_app) (fst x)"
    by (simp add: example_app_def example_files_def path_exists_def)
  note t = C2_undo_refused_when_path_missing[OF h1 h2, of example_env True]
  have v: "files example_app = example_files" "dialogs example_app = []"
    "rename_history example_app = [(''/d/gone.txt'', ''/d/was.txt'')]"
    "history_file example_app = Stored [(''/d/gone.txt'', ''/d/was.txt'')]"
    by (simp_all add: example_app_def)
  have c: "dialogs (undo example_env True example_app) = [UndoFailedBox] \<and>
   files (undo example_env True example_app) = example_files \<and>
   rename_history (undo example_env True example_app) = [(''/d/gone.txt'', ''/d/was.txt'')] \<and>
   history_file (undo example_env True example_app) = Stored [(''/d/gone.txt'', ''/d/was.txt'')]"
    using t[THEN conjunct2] by (simp add: v)
  show ?thesis
    using h1 h2 c by blast
qed

subsection \<open>A rename that fails validation\<close>

text \<open>
  C10: \<open>rename\<close> clears the history in memory before it validates. When validation fails
  (no valid folder, the configuration directory, lists of different lengths, or illegal
  characters that the operator declines to strip), the history in memory is empty, the
  history file and the files are as before, and an \<open>undo\<close> that follows does nothing at
  all: it returns at line 1638, whatever the answer to its question would be.
\<close>

theorem C10_failed_validation_clears_memory_only:
  assumes "in_folder inp = [] \<or> \<not> isdir (files st) (in_folder inp) \<or>
           normpath env (config_dir st) = normpath env (in_folder inp) \<or>
           length (in_origs inp) \<noteq> length (in_news inp) \<or>
           (found_illegal (app_settings st) (in_news inp) \<noteq> [] \<and> \<not> answer_strip inp)"
  shows "rename_history (rename env inp st) = [] \<and>
         history_file (rename env inp st) = history_file st \<and>
         files (rename env inp st) = files st \<and>
         undo env confirm (rename env inp st) = rename env inp st"
  using assms
  by (auto simp: rename_def get_and_validate_inputs_def show_dialog_def undo_def Let_def)

theorem C10_failed_validation_witness:
  "length (in_origs mismatch_input) \<noteq> length (in_news mismatch_input) \<and>
   rename_history (rename example_env mismatch_input example_app) = [] \<and>
   history_file (rename example_env mismatch_input example_app) =
     Stored [(''/d/gone.txt'', ''/d/was.txt'')] \<and>
   files (rename example_env mismatch_input example_app) = example_files \<and>
   dialogs (rename example_env mismatch_input example_app) = [MapErrorBox 2 1] \<and>
   undo example_env True (rename example_env mismatch_input example_app) =
     rename example_env mismatch_input example_app"
proof -
  have h: "length (in_origs mismatch_input) \<noteq> length (in_news mismatch_input)"
    by (simp add: mismatch_input_def)
  have d: "dialogs (rename example_env mismatch_input example_app) = [MapErrorBox 2 1]"
    by (simp add: rename_def get_and_validate_inputs_def show_dialog_def Let_def isdir_def
        example_defs)
  note t = C10_failed_validation_clears_memory_only[of mismatch_input example_app example_env True]
  have v: "files example_app = example_files"
    "history_file example_app = Stored [(''/d/gone.txt'', ''/d/was.txt'')]"
    by (simp_all add: example_app_def)
  show ?thesis
    using h d t unfolding v by simp
qed

subsection \<open>A failed write of the history file\<close>

lemma rename_item_without_write_faults:
  assumes "agree_but_history_file s s'"
  shows "agree_but_history_file
           (fst (rename_item env folder n (s, t, k) item))
           (fst (rename_item (without_write_faults env) folder n (s', t, k) item)) \<and>
         snd (rename_item env folder n (s, t, k) item) =
         snd (rename_item (without_write_faults env) folder n (s', t, k) item)"
proof -
  obtain o_name n_name where item: "item = (o_name, n_name)" by (cases item)
  have m: "move (without_write_faults env) = move env"
    by (intro ext) (simp add: move_def without_write_faults_def)
  have w: "history_write_fault (without_write_faults env) = (\<lambda>h. None)"
    by (simp add: without_write_faults_def)
  show ?thesis
    using assms unfolding item
    by (auto simp: rename_item_def m w write_history_def
        agree_but_history_file_def appendPlainText_def Let_def list_all2_appendI
        same_or_error_for_success_def
        split: sum.splits option.splits)
qed

lemma rename_loop_without_write_faults:
  assumes "agree_but_history_file s s'"
  shows "agree_but_history_file
           (fst (rename_loop env folder n (s, t, k) items))
           (fst (rename_loop (without_write_faults env) folder n (s', t, k) items)) \<and>
         snd (rename_loop env folder n (s, t, k) items) =
         snd (rename_loop (without_write_faults env) folder n (s', t, k) items)"
  using assms
proof (induction items arbitrary: s s' t k)
  case Nil
  then show ?case by (simp add: rename_loop_def)
next
  case (Cons item items)
  obtain s1 t1 k1 where a: "rename_item env folder n (s, t, k) item = (s1, t1, k1)"
    by (cases "rename_item env folder n (s, t, k) item") auto
  obtain s1' t1' k1' where b: "rename_item (without_write_faults env) folder n (s', t, k) item = (s1', t1', k1')"
    by (cases "rename_item (without_write_faults env) folder n (s', t, k) item") auto
  from rename_item_without_write_faults[OF Cons.prems, of env folder n t k item]
  have c: "agree_but_history_file s1 s1'" "t1 = t1'" "k1 = k1'"
    by (simp_all add: a b)
  show ?case
    using Cons.IH[OF c(1), of t1 k1] a b c
    by (simp add: rename_loop_def)
qed

lemma agree_but_history_file_refl: "agree_but_history_file s s"
  by (simp add: agree_but_history_file_def list_all2_refl same_or_error_for_success_def)

lemma agree_but_history_file_start:
  "agree_but_history_file (s\<lparr>history_file := h\<rparr>) (s\<lparr>history_file := h'\<rparr>)"
  by (simp add: agree_but_history_file_def list_all2_refl same_or_error_for_success_def)

text \<open>
  C7, as stated, fails: when the write of the history file fails after the move of
  \<open>a.txt\<close> succeeded, the only trace is the item's line \<open>error renaming a.txt\<close>, the line
  that a failed move of the item produces too (with another exception text); nothing is
  printed and no box is shown, although the file was moved.
\<close>

theorem C7_write_fault_counterexample:
  "log_text (execute_rename write_fault_env example_app ''/d'' [''a.txt''] [''x.txt'']) =
     [ErrorRenamingLine ''a.txt'' HistoryWriteFault, DoneLine,
      LogSavedRenameLine ''/cfg/rename.log''] \<and>
   log_text (execute_rename move_fault_env example_app ''/d'' [''a.txt''] [''x.txt'']) =
     [ErrorRenamingLine ''a.txt'' OSFault, DoneLine, LogSavedRenameLine ''/cfg/rename.log''] \<and>
   isfile (files (execute_rename write_fault_env example_app ''/d'' [''a.txt''] [''x.txt''])) ''/d/x.txt'' \<and>
   console (execute_rename write_fault_env example_app ''/d'' [''a.txt''] [''x.txt'']) = [] \<and>
   dialogs (execute_rename write_fault_env example_app ''/d'' [''a.txt''] [''x.txt'']) = []"
  by code_simp

text \<open>
  C7, amended: a failure to write the history file after a successful move is caught by
  the handler of the move and reported as the item's \<open>error renaming\<close> line in place of
  its success line, and in no other way. It rolls nothing back and aborts nothing: the
  files, the history in memory, the progress, the console and the dialogs of the whole
  batch are those of the same batch without write failures, and the logs differ only in
  such lines. At the item itself the move stays done and its pair stays recorded.
\<close>

theorem C7_write_fault_reported_as_rename_error:
  "agree_but_history_file
     (execute_rename env st folder origs news)
     (execute_rename (without_write_faults env) st folder origs news) \<and>
   (isfile (files s) (path_join folder o_name) \<and>
    move env (files s) (path_join folder o_name) (path_join folder n_name) = Inr fs' \<and>
    history_write_fault env (t @ [(path_join folder n_name, path_join folder o_name)]) = Some e
    \<longrightarrow>
      files (fst (rename_item env folder n (s, t, k) (o_name, n_name))) = fs' \<and>
      log_text (fst (rename_item env folder n (s, t, k) (o_name, n_name))) =
        log_text s @ [ErrorRenamingLine o_name e] \<and>
      snd (rename_item env folder n (s, t, k) (o_name, n_name)) =
        (t @ [(path_join folder n_name, path_join folder o_name)], k + 1))"
proof -
  have 1: "agree_but_history_file
     (execute_rename env st folder origs news)
     (execute_rename (without_write_faults env) st folder origs news)"
  proof (cases "origs = []")
    case True
    then show ?thesis
      by (simp add: execute_rename_def agree_but_history_file_refl)
  next
    case False
    define s0 where "s0 = st\<lparr>log_text := [], progress_label := 0, progress_visible := True\<rparr>"
    define a where "a = s0\<lparr>history_file := remove_history_file env (history_file s0)\<rparr>"
    define b where
      "b = s0\<lparr>history_file := remove_history_file (without_write_faults env) (history_file s0)\<rparr>"
    have ab: "agree_but_history_file a b"
      unfolding a_def b_def by (rule agree_but_history_file_start)
    note l = rename_loop_without_write_faults[OF ab, of env folder "length origs" "[]" 0 "zip origs news"]
    obtain s1 t1 k1 where ra: "rename_loop env folder (length origs) (a, [], 0) (zip origs news) = (s1, t1, k1)"
      by (cases "rename_loop env folder (length origs) (a, [], 0) (zip origs news)") auto
    obtain s1' t1' k1' where rb:
      "rename_loop (without_write_faults env) folder (length origs) (b, [], 0) (zip origs news) = (s1', t1', k1')"
      by (cases "rename_loop (without_write_faults env) folder (length origs) (b, [], 0) (zip origs news)") auto
    have c: "agree_but_history_file s1 s1'" "t1 = t1'"
      using l by (simp_all add: ra rb)
    have lw: "log_write_fault (without_write_faults env) = log_write_fault env"
      by (simp add: without_write_faults_def)
    have ea: "execute_rename env st folder origs news =
        save_rename_log env (appendPlainText DoneLine
          (let s4 = s1\<lparr>rename_history := rename_history s1 @ t1\<rparr>
           in if rename_history s4 \<noteq> [] then s4\<lparr>undo_button_enabled := True\<rparr> else s4))"
      using False ra by (simp add: execute_rename_def Let_def a_def s0_def)
    have eb: "execute_rename (without_write_faults env) st folder origs news =
        save_rename_log (without_write_faults env) (appendPlainText DoneLine
          (let s4 = s1'\<lparr>rename_history := rename_history s1' @ t1'\<rparr>
           in if rename_history s4 \<noteq> [] then s4\<lparr>undo_button_enabled := True\<rparr> else s4))"
      using False rb by (simp add: execute_rename_def Let_def b_def s0_def)
    show ?thesis
      unfolding ea eb using c
      by (auto simp: save_rename_log_def lw appendPlainText_def Let_def
          agree_but_history_file_def list_all2_appendI same_or_error_for_success_def)
  qed
  have 2: "isfile (files s) (path_join folder o_name) \<and>
    move env (files s) (path_join folder o_name) (path_join folder n_name) = Inr fs' \<and>
    history_write_fault env (t @ [(path_join folder n_name, path_join folder o_name)]) = Some e
    \<longrightarrow>
      files (fst (rename_item env folder n (s, t, k) (o_name, n_name))) = fs' \<and>
      log_text (fst (rename_item env folder n (s, t, k) (o_name, n_name))) =
        log_text s @ [ErrorRenamingLine o_name e] \<and>
      snd (rename_item env folder n (s, t, k) (o_name, n_name)) =
        (t @ [(path_join folder n_name, path_join folder o_name)], k + 1)"
    by (simp add: rename_item_def write_history_def appendPlainText_def Let_def)
  show ?thesis using 1 2 by blast
qed

theorem C7_write_fault_witness:
  "isfile (files example_app) (path_join ''/d'' ''a.txt'') \<and>
   move write_fault_env (files example_app) (path_join ''/d'' ''a.txt'') (path_join ''/d'' ''x.txt'') =
     Inr (fmupd ''/d/x.txt'' (RegularFile ''A'') (fmdrop ''/d/a.txt'' example_files)) \<and>
   history_write_fault write_fault_env ([] @ [(path_join ''/d'' ''x.txt'', path_join ''/d'' ''a.txt'')]) =
     Some HistoryWriteFault \<and>
   files (fst (rename_item write_fault_env ''/d'' 1 (example_app, [], 0) (''a.txt'', ''x.txt''))) =
     fmupd ''/d/x.txt'' (RegularFile ''A'') (fmdrop ''/d/a.txt'' example_files) \<and>
   log_text (fst (rename_item write_fault_env ''/d'' 1 (example_app, [], 0) (''a.txt'', ''x.txt''))) =
     [ErrorRenamingLine ''a.txt'' HistoryWriteFault] \<and>
   snd (rename_item write_fault_env ''/d'' 1 (example_app, [], 0) (''a.txt'', ''x.txt'')) =
     ([(''/d/x.txt'', ''/d/a.txt'')], 1)"
proof -
  have h1: "isfile (files example_app) (path_join ''/d'' ''a.txt'')"
    by (simp add: example_app_def example_files_def isfile_def path_join_def)
  have h2: "move write_fault_env (files example_app) (path_join ''/d'' ''a.txt'') (path_join ''/d'' ''x.txt'') =
     Inr (fmupd ''/d/x.txt'' (RegularFile ''A'') (fmdrop ''/d/a.txt'' example_files))"
    by (simp add: example_app_def example_files_def write_fault_env_def example_env_def
        move_def os_rename_def isdir_def path_join_def)
  have h3: "history_write_fault write_fault_env ([] @ [(path_join ''/d'' ''x.txt'', path_join ''/d'' ''a.txt'')]) =
     Some HistoryWriteFault"
    by (simp add: write_fault_env_def)
  have p: "path_join ''/d'' ''a.txt'' = ''/d/a.txt''" "path_join ''/d'' ''x.txt'' = ''/d/x.txt''"
    by (simp_all add: path_join_def)
  have l: "log_text example_app = []" by (simp add: example_app_def)
  note t = C7_write_fault_reported_as_rename_error[THEN conjunct2, rule_format, OF conjI[OF h1 conjI[OF h2 h3]], of 1 0]
  show ?thesis
    using h1 h2 h3 t by (simp add: p l)
qed

subsection \<open>Conflict detection\<close>

lemma set_set_add: "set (set_add i s) = insert i (set s)"
  by (auto simp: set_add_def)

lemma distinct_set_add: "distinct s \<Longrightarrow> distinct (set_add i s)"
  by (simp add: set_add_def)

lemma set_foldl_enumerate:
  "set (foldl (\<lambda>acc (i, x). if P x then set_add i acc else acc) acc0 (enumerate n xs)) =
   set acc0 \<union> {i. n \<le> i \<and> i < n + length xs \<and> P (xs ! (i - n))}"
proof (induction xs arbitrary: n acc0)
  case Nil
  then show ?case by auto
next
  case (Cons x xs)
  have "{i. n \<le> i \<and> i < n + length (x # xs) \<and> P ((x # xs) ! (i - n))} =
        (if P x then {n} else {}) \<union> {i. Suc n \<le> i \<and> i < Suc n + length xs \<and> P (xs ! (i - Suc n))}"
    (is "?L = ?R")
  proof (intro set_eqI iffI)
    fix i assume "i \<in> ?L"
    then show "i \<in> ?R"
      by (cases "i = n") (auto simp: nth_Cons' Suc_diff_le split: if_splits)
  next
    fix i assume "i \<in> ?R"
    then show "i \<in> ?L"
      by (auto simp: nth_Cons' split: if_splits)
  qed
  then show ?case
    by (auto simp: Cons.IH set_set_add)
qed

lemma distinct_foldl_enumerate:
  "distinct acc0 \<Longrightarrow>
   distinct (foldl (\<lambda>acc (i, x). if P x then set_add i acc else acc) acc0 (enumerate n xs))"
  by (induction xs arbitrary: n acc0) (auto simp: distinct_set_add)

lemma set_existing_conflicts:
  "set (existing_conflicts fs folder news) =
   {i. i < length news \<and> path_exists fs (path_join folder (news ! i))}"
  using set_foldl_enumerate[of "\<lambda>name. path_exists fs (path_join folder name)" "[]" 0 news]
  by (simp add: existing_conflicts_def)

lemma distinct_existing_conflicts: "distinct (existing_conflicts fs folder news)"
  using distinct_foldl_enumerate[of "[]" "\<lambda>name. path_exists fs (path_join folder name)" 0 news]
  by (simp add: existing_conflicts_def)

text \<open>The counter holds each name of the list once, with the number of its occurrences.\<close>

lemma map_of_counter_add:
  "map_of (counter_add x c) y =
   (if y = x then Some (case map_of c x of None \<Rightarrow> 1 | Some k \<Rightarrow> k + 1) else map_of c y)"
  by (induction x c rule: counter_add.induct) auto

lemma keys_counter_add: "fst ` set (counter_add x c) = insert x (fst ` set c)"
  by (induction x c rule: counter_add.induct) (auto simp: rev_image_eqI)

lemma distinct_counter_add: "distinct (map fst c) \<Longrightarrow> distinct (map fst (counter_add x c))"
proof (induction x c rule: counter_add.induct)
  case (1 x)
  then show ?case by simp
next
  case (2 x y c ys)
  then show ?case
    using keys_counter_add[of x ys] by (auto simp: image_iff)
qed

lemma distinct_counter_foldl:
  "distinct (map fst c) \<Longrightarrow> distinct (map fst (foldl (\<lambda>acc x. counter_add x acc) c xs))"
  by (induction xs arbitrary: c) (simp_all add: distinct_counter_add)

lemma map_of_counter_foldl:
  "map_of (foldl (\<lambda>acc x. counter_add x acc) c xs) y =
   (case map_of c y of
      None \<Rightarrow> (if y \<in> set xs then Some (count_list xs y) else None)
    | Some k \<Rightarrow> Some (count_list xs y + k))"
proof (induction xs arbitrary: c)
  case Nil
  then show ?case by (simp split: option.splits)
next
  case (Cons x xs)
  show ?case
    by (simp add: Cons.IH map_of_counter_add split: option.splits)
qed

lemma Counter_iff:
  "(name, count) \<in> set (Counter news) \<longleftrightarrow> name \<in> set news \<and> count = count_list news name"
proof -
  have d: "distinct (map fst (Counter news))"
    using distinct_counter_foldl[of "[]" news] by (simp add: Counter_def)
  have m: "map_of (Counter news) name = (if name \<in> set news then Some (count_list news name) else None)"
    using map_of_counter_foldl[of "[]" news name] by (simp add: Counter_def)
  have "(name, count) \<in> set (Counter news) \<longleftrightarrow> map_of (Counter news) name = Some count"
    using d by simp
  then show ?thesis
    using m by auto
qed

lemma set_duplicate_fold:
  "set (foldl (\<lambda>acc (name, count).
              if count > 1
              then foldl (\<lambda>acc' (i, n). if n = name then set_add i acc' else acc')
                     acc (enumerate 0 news)
              else acc) acc0 cs) =
   set acc0 \<union> {i. i < length news \<and> (\<exists>c \<in> set cs. snd c > 1 \<and> news ! i = fst c)}"
proof (induction cs arbitrary: acc0)
  case Nil
  then show ?case by simp
next
  case (Cons c cs)
  obtain name count where c: "c = (name, count)" by (cases c)
  have inner: "\<And>acc. set (foldl (\<lambda>acc' (i, n). if n = name then set_add i acc' else acc')
                     acc (enumerate 0 news)) = set acc \<union> {i. i < length news \<and> news ! i = name}"
    using set_foldl_enumerate[of "\<lambda>n. n = name" _ 0 news] by simp
  show ?case
    unfolding c by (auto simp: Cons.IH inner)
qed

lemma distinct_duplicate_fold:
  "distinct acc0 \<Longrightarrow>
   distinct (foldl (\<lambda>acc (name, count).
              if count > 1
              then foldl (\<lambda>acc' (i, n). if n = name then set_add i acc' else acc')
                     acc (enumerate 0 news)
              else acc) acc0 cs)"
proof (induction cs arbitrary: acc0)
  case Nil
  then show ?case by simp
next
  case (Cons c cs)
  obtain name count where c: "c = (name, count)" by (cases c)
  have inner: "distinct (foldl (\<lambda>acc' (i, n). if n = name then set_add i acc' else acc')
                     acc0 (enumerate 0 news))"
    using distinct_foldl_enumerate[OF Cons.prems, of "\<lambda>n. n = name" 0 news] by simp
  show ?case
    unfolding c using Cons.IH[OF inner] Cons.IH[OF Cons.prems] by simp
qed

lemma count_list_pos_iff: "0 < count_list xs x \<longleftrightarrow> x \<in> set xs"
  using count_list_0_iff[of xs x] by auto

lemma count_list_gt1_iff:
  "i < length xs \<Longrightarrow>
   1 < count_list xs (xs ! i) \<longleftrightarrow> (\<exists>j. j < length xs \<and> j \<noteq> i \<and> xs ! j = xs ! i)"
proof (induction xs arbitrary: i)
  case Nil
  then show ?case by simp
next
  case (Cons a ys)
  show ?case
  proof (cases i)
    case 0
    have "1 < count_list (a # ys) a \<longleftrightarrow> a \<in> set ys"
      by (simp add: count_list_pos_iff)
    also have "\<dots> \<longleftrightarrow> (\<exists>j. j < length ys \<and> ys ! j = a)"
      by (auto simp: in_set_conv_nth)
    also have "\<dots> \<longleftrightarrow> (\<exists>j. j < length (a # ys) \<and> j \<noteq> 0 \<and> (a # ys) ! j = a)"
    proof
      assume "\<exists>j. j < length ys \<and> ys ! j = a"
      then obtain j where "j < length ys" "ys ! j = a" by blast
      then have "Suc j < length (a # ys) \<and> Suc j \<noteq> 0 \<and> (a # ys) ! Suc j = a" by simp
      then show "\<exists>j. j < length (a # ys) \<and> j \<noteq> 0 \<and> (a # ys) ! j = a" by blast
    next
      assume "\<exists>j. j < length (a # ys) \<and> j \<noteq> 0 \<and> (a # ys) ! j = a"
      then obtain j where j: "j < length (a # ys)" "j \<noteq> 0" "(a # ys) ! j = a" by blast
      then obtain j' where "j = Suc j'" by (cases j) auto
      with j show "\<exists>j. j < length ys \<and> ys ! j = a" by auto
    qed
    finally show ?thesis using 0 by simp
  next
    case (Suc i')
    then have i': "i' < length ys" using Cons.prems by simp
    let ?x = "ys ! i'"
    show ?thesis
    proof (cases "a = ?x")
      case True
      have "?x \<in> set ys" using i' by simp
      then have "0 < count_list ys ?x" by (simp add: count_list_pos_iff)
      then have l: "1 < count_list (a # ys) ((a # ys) ! i)" using True Suc by simp
      have "0 < length (a # ys) \<and> 0 \<noteq> i \<and> (a # ys) ! 0 = (a # ys) ! i"
        using True Suc by simp
      then have "\<exists>j. j < length (a # ys) \<and> j \<noteq> i \<and> (a # ys) ! j = (a # ys) ! i" by blast
      with l show ?thesis by simp
    next
      case False
      have "1 < count_list (a # ys) ((a # ys) ! i) \<longleftrightarrow> 1 < count_list ys ?x"
        using False Suc by simp
      also have "\<dots> \<longleftrightarrow> (\<exists>j. j < length ys \<and> j \<noteq> i' \<and> ys ! j = ?x)"
        by (rule Cons.IH[OF i'])
      also have "\<dots> \<longleftrightarrow> (\<exists>j. j < length (a # ys) \<and> j \<noteq> i \<and> (a # ys) ! j = (a # ys) ! i)"
      proof
        assume "\<exists>j. j < length ys \<and> j \<noteq> i' \<and> ys ! j = ?x"
        then obtain j where "j < length ys" "j \<noteq> i'" "ys ! j = ?x" by blast
        then have "Suc j < length (a # ys) \<and> Suc j \<noteq> i \<and> (a # ys) ! Suc j = (a # ys) ! i"
          using Suc by simp
        then show "\<exists>j. j < length (a # ys) \<and> j \<noteq> i \<and> (a # ys) ! j = (a # ys) ! i" by blast
      next
        assume "\<exists>j. j < length (a # ys) \<and> j \<noteq> i \<and> (a # ys) ! j = (a # ys) ! i"
        then obtain j where j: "j < length (a # ys)" "j \<noteq> i" "(a # ys) ! j = (a # ys) ! i" by blast
        have "j \<noteq> 0" using j(3) False Suc by (cases j) auto
        then obtain j' where "j = Suc j'" by (cases j) auto
        with j Suc show "\<exists>j. j < length ys \<and> j \<noteq> i' \<and> ys ! j = ?x" by auto
      qed
      finally show ?thesis .
    qed
  qed
qed

lemma set_conflicting_indices:
  "set (conflicting_indices fs folder news) = spec_conflict_set fs folder news"
proof -
  have dup: "\<And>i. i < length news \<Longrightarrow>
      (\<exists>c \<in> set (Counter news). snd c > 1 \<and> news ! i = fst c) \<longleftrightarrow>
      (\<exists>j. j < length news \<and> j \<noteq> i \<and> news ! j = news ! i)"
  proof -
    fix i assume i: "i < length news"
    have "(\<exists>c \<in> set (Counter news). snd c > 1 \<and> news ! i = fst c) \<longleftrightarrow>
          1 < count_list news (news ! i)"
    proof
      assume "\<exists>c \<in> set (Counter news). snd c > 1 \<and> news ! i = fst c"
      then obtain name count where "(name, count) \<in> set (Counter news)" "count > 1" "news ! i = name"
        by auto
      then show "1 < count_list news (news ! i)" by (simp add: Counter_iff)
    next
      assume "1 < count_list news (news ! i)"
      moreover have "(news ! i, count_list news (news ! i)) \<in> set (Counter news)"
        using i by (simp add: Counter_iff)
      ultimately show "\<exists>c \<in> set (Counter news). snd c > 1 \<and> news ! i = fst c"
        by force
    qed
    then show "(\<exists>c \<in> set (Counter news). snd c > 1 \<and> news ! i = fst c) \<longleftrightarrow>
      (\<exists>j. j < length news \<and> j \<noteq> i \<and> news ! j = news ! i)"
      using count_list_gt1_iff[OF i] by simp
  qed
  show ?thesis
    unfolding conflicting_indices_def duplicate_conflicts_def spec_conflict_set_def
      set_duplicate_fold set_existing_conflicts
    using dup by blast
qed

lemma distinct_conflicting_indices: "distinct (conflicting_indices fs folder news)"
  unfolding conflicting_indices_def duplicate_conflicts_def
  by (rule distinct_duplicate_fold[OF distinct_existing_conflicts])

lemma sort_conflicting_indices:
  "sort (conflicting_indices fs folder news) = sorted_list_of_set (spec_conflict_set fs folder news)"
  using distinct_conflicting_indices[of fs folder news]
  by (simp add: set_conflicting_indices[symmetric] sorted_list_of_set_sort_remdups
      distinct_remdups_id)

subsection \<open>The split of a name\<close>

declare skip_leading_dots.simps [simp del]

lemma rfind_from_absent: "c \<notin> set xs \<Longrightarrow> rfind_from c xs i f = f"
  by (induction xs arbitrary: i f) auto

lemma rfind_from_last:
  "c \<notin> set zs \<Longrightarrow> rfind_from c (ys @ c # zs) i f = i + int (length ys)"
  by (induction ys arbitrary: i f) (simp_all add: rfind_from_absent)

lemma skip_leading_dots_at:
  "k \<le> length ys \<Longrightarrow>
   skip_leading_dots (ys @ CHR ''.'' # zs) (int k) (int (length ys)) =
   (if \<exists>c \<in> set (drop k ys). c \<noteq> CHR ''.'' then (ys, CHR ''.'' # zs)
    else (ys @ CHR ''.'' # zs, []))"
proof (induction "length ys - k" arbitrary: k)
  case 0
  then have "k = length ys" by simp
  then show ?case by (subst skip_leading_dots.simps) simp
next
  case (Suc m)
  then have k: "k < length ys" by simp
  have d: "drop k ys = ys ! k # drop (Suc k) ys"
    using k by (simp add: Cons_nth_drop_Suc)
  have t: "take 1 (drop k (ys @ CHR ''.'' # zs)) = [ys ! k]"
    using k d by simp
  show ?case
  proof (cases "ys ! k = CHR ''.''")
    case True
    have "skip_leading_dots (ys @ CHR ''.'' # zs) (int k) (int (length ys)) =
          skip_leading_dots (ys @ CHR ''.'' # zs) (int (Suc k)) (int (length ys))"
      using k t True by (subst skip_leading_dots.simps) (simp add: add.commute)
    also have "\<dots> = (if \<exists>c \<in> set (drop (Suc k) ys). c \<noteq> CHR ''.'' then (ys, CHR ''.'' # zs)
                     else (ys @ CHR ''.'' # zs, []))"
      using Suc.hyps(1)[of "Suc k"] Suc.hyps(2) k by simp
    finally show ?thesis using True d by simp
  next
    case False
    have "skip_leading_dots (ys @ CHR ''.'' # zs) (int k) (int (length ys)) = (ys, CHR ''.'' # zs)"
      using k t False by (subst skip_leading_dots.simps) simp
    moreover have "\<exists>c \<in> set (drop k ys). c \<noteq> CHR ''.''"
      using False d by auto
    ultimately show ?thesis by simp
  qed
qed

lemma split_at_last_dot_decomp:
  "CHR ''.'' \<notin> set zs \<Longrightarrow> split_at_last_dot (ys @ CHR ''.'' # zs) = (ys, CHR ''.'' # zs)"
proof -
  assume z: "CHR ''.'' \<notin> set zs"
  have "takeWhile (\<lambda>c. c \<noteq> CHR ''.'') (rev zs @ CHR ''.'' # rev ys) = rev zs"
    using z by (subst takeWhile_append2) auto
  then show ?thesis
    by (simp add: split_at_last_dot_def Let_def)
qed

lemma dot_after_leading_dots:
  "CHR ''.'' \<notin> set zs \<Longrightarrow>
   CHR ''.'' \<in> set (dropWhile (\<lambda>c. c = CHR ''.'') (ys @ CHR ''.'' # zs)) \<longleftrightarrow>
   (\<exists>c \<in> set ys. c \<noteq> CHR ''.'')"
proof -
  assume z: "CHR ''.'' \<notin> set zs"
  show ?thesis
  proof (cases "\<exists>c \<in> set ys. c \<noteq> CHR ''.''")
    case True
    then obtain c where "c \<in> set ys" "\<not> (c = CHR ''.'')" by blast
    then have "dropWhile (\<lambda>c. c = CHR ''.'') (ys @ CHR ''.'' # zs) =
               dropWhile (\<lambda>c. c = CHR ''.'') ys @ CHR ''.'' # zs"
      by (rule dropWhile_append1)
    then show ?thesis using True by simp
  next
    case False
    then have "dropWhile (\<lambda>c. c = CHR ''.'') (ys @ CHR ''.'' # zs) =
               dropWhile (\<lambda>c. c = CHR ''.'') zs"
      by (simp add: dropWhile_append2)
    moreover have "set (dropWhile (\<lambda>c. c = CHR ''.'') zs) \<subseteq> set zs"
      by (rule set_dropWhileD[THEN subsetI]) 
    ultimately show ?thesis using False z by auto
  qed
qed

text \<open>
  For a name without a slash \<open>os.path.splitext\<close> splits at the last dot, unless only dots
  precede that dot; then, and when the name has no dot, the extension is empty.
\<close>

lemma splitext_eq_spec_splitext:
  assumes "CHR ''/'' \<notin> set name"
  shows "splitext name = spec_splitext name"
proof (cases "CHR ''.'' \<in> set name")
  case False
  have "set (dropWhile (\<lambda>c. c = CHR ''.'') name) \<subseteq> set name"
    by (rule set_dropWhileD[THEN subsetI])
  then have "CHR ''.'' \<notin> set (dropWhile (\<lambda>c. c = CHR ''.'') name)" using False by auto
  then show ?thesis
    using False assms by (simp add: splitext_def spec_splitext_def rfind_def rfind_from_absent)
next
  case True
  then obtain ys zs where n: "name = ys @ CHR ''.'' # zs" and z: "CHR ''.'' \<notin> set zs"
    using split_list_last[of "CHR ''.''" name] by blast
  have sep: "rfind name CHR ''/'' = - 1"
    using assms by (simp add: rfind_def rfind_from_absent)
  have dot: "rfind name CHR ''.'' = int (length ys)"
    using z by (simp add: rfind_def n rfind_from_last)
  have "splitext name = skip_leading_dots name (int 0) (int (length ys))"
    by (simp add: splitext_def sep dot)
  also have "\<dots> = (if \<exists>c \<in> set ys. c \<noteq> CHR ''.'' then (ys, CHR ''.'' # zs) else (name, []))"
    unfolding n using skip_leading_dots_at[of 0 ys zs] by simp
  also have "\<dots> = spec_splitext name"
    unfolding n spec_splitext_def
    using dot_after_leading_dots[OF z, of ys] split_at_last_dot_decomp[OF z, of ys] by simp
  finally show ?thesis .
qed

subsection \<open>Conflict resolution\<close>

lemma find_free_not_taken:
  "\<not> taken fs folder temp_news (find_free fs folder base ext temp_news count)"
proof (induction fs folder base ext temp_news count rule: find_free.induct)
  case (1 fs folder base ext temp_news count)
  show ?case
  proof (cases "taken fs folder temp_news (candidate base ext count)")
    case True
    then have "find_free fs folder base ext temp_news count =
               find_free fs folder base ext temp_news (count + 1)"
      by (subst find_free.simps) (auto simp add: taken_def Let_def)
    then show ?thesis
      using 1[OF refl] True by (simp add: taken_def)
  next
    case False
    then have "find_free fs folder base ext temp_news count = candidate base ext count"
      by (subst find_free.simps) (simp add: taken_def Let_def)
    then show ?thesis using False by simp
  qed
qed

lemma find_free_least:
  "find_free fs folder base ext temp_news count =
   candidate base ext
     (LEAST k. count \<le> k \<and> \<not> path_exists fs (path_join folder (candidate base ext k)) \<and>
               candidate base ext k \<notin> set temp_news)"
proof (induction fs folder base ext temp_news count rule: find_free.induct)
  case (1 fs folder base ext temp_news count)
  let ?free = "\<lambda>k. \<not> path_exists fs (path_join folder (candidate base ext k)) \<and>
                  candidate base ext k \<notin> set temp_news"
  show ?case
  proof (cases "?free count")
    case True
    then have "find_free fs folder base ext temp_news count = candidate base ext count"
      by (subst find_free.simps) (simp add: Let_def)
    moreover have "(LEAST k. count \<le> k \<and> ?free k) = count"
      using True by (intro Least_equality) auto
    ultimately show ?thesis by simp
  next
    case False
    then have "find_free fs folder base ext temp_news count =
               find_free fs folder base ext temp_news (count + 1)"
      by (subst find_free.simps) (auto simp add: Let_def)
    moreover have "(\<lambda>k. count \<le> k \<and> ?free k) = (\<lambda>k. count + 1 \<le> k \<and> ?free k)"
    proof (rule ext)
      fix k
      show "(count \<le> k \<and> ?free k) = (count + 1 \<le> k \<and> ?free k)"
        using False by (cases "k = count") auto
    qed
    ultimately show ?thesis
      using 1[OF refl] False by simp
  qed
qed

lemma find_free_hit:
  "\<not> taken fs folder temp_news (candidate base ext count) \<Longrightarrow>
   find_free fs folder base ext temp_news count = candidate base ext count"
  by (subst find_free.simps) (simp add: taken_def Let_def)

lemma find_free_miss:
  "taken fs folder temp_news (candidate base ext count) \<Longrightarrow>
   find_free fs folder base ext temp_news count =
   find_free fs folder base ext temp_news (count + 1)"
  by (subst find_free.simps) (auto simp add: taken_def Let_def)

lemma length_resolve_conflict [simp]:
  "length (resolve_conflict fs folder temp_news c) = length temp_news"
  by (simp add: resolve_conflict_def split: prod.splits)

lemma length_auto_resolve [simp]: "length (auto_resolve fs folder news cs) = length news"
  unfolding auto_resolve_def by (induction cs arbitrary: news) simp_all

text \<open>
  One step of the resolution and the step the specification describes are the same, as
  long as the name recorded with the conflict is still the name at its index and holds
  no slash.
\<close>

lemma resolve_conflict_eq_spec:
  "temp_news ! i = name \<Longrightarrow> CHR ''/'' \<notin> set name \<Longrightarrow>
   resolve_conflict fs folder temp_news (name, i) = spec_resolve_one fs folder temp_news i"
  by (simp add: resolve_conflict_def spec_resolve_one_def spec_first_free_def find_free_least
      splitext_eq_spec_splitext split: prod.splits)

lemma foldl_resolve_eq_spec:
  "distinct is \<Longrightarrow> \<forall>i \<in> set is. temp_news ! i = news ! i \<Longrightarrow>
   \<forall>i \<in> set is. CHR ''/'' \<notin> set (news ! i) \<Longrightarrow>
   foldl (resolve_conflict fs folder) temp_news (map (\<lambda>i. (news ! i, i)) is) =
   foldl (spec_resolve_one fs folder) temp_news is"
proof (induction "is" arbitrary: temp_news)
  case Nil
  then show ?case by simp
next
  case (Cons i "is")
  let ?t = "resolve_conflict fs folder temp_news (news ! i, i)"
  have eq: "?t = spec_resolve_one fs folder temp_news i"
    using Cons.prems(2,3) by (simp add: resolve_conflict_eq_spec)
  have "\<forall>j \<in> set is. ?t ! j = news ! j"
  proof
    fix j assume j: "j \<in> set is"
    then have "j \<noteq> i" using Cons.prems(1) by auto
    then have "?t ! j = temp_news ! j"
      by (simp add: resolve_conflict_def split: prod.splits)
    then show "?t ! j = news ! j" using Cons.prems(2) j by simp
  qed
  then have "foldl (resolve_conflict fs folder) ?t (map (\<lambda>i. (news ! i, i)) is) =
        foldl (spec_resolve_one fs folder) ?t is"
    using Cons.IH Cons.prems(1,3) by simp
  then show ?case using eq by simp
qed

lemma auto_resolve_eq_spec:
  assumes "\<forall>n \<in> set news. CHR ''/'' \<notin> set n"
  shows "auto_resolve fs folder news (conflicts_of news (conflicting_indices fs folder news)) =
         spec_auto_resolve fs folder news"
proof -
  have d: "distinct (sort (conflicting_indices fs folder news))"
    by (simp add: distinct_conflicting_indices)
  have "\<forall>i \<in> set (sort (conflicting_indices fs folder news)). i < length news"
    using set_conflicting_indices[of fs folder news] by (auto simp: spec_conflict_set_def)
  then have sl: "\<forall>i \<in> set (sort (conflicting_indices fs folder news)). CHR ''/'' \<notin> set (news ! i)"
    using assms by auto
  show ?thesis
    unfolding auto_resolve_def conflicts_of_def spec_auto_resolve_def
    using foldl_resolve_eq_spec[OF d _ sl, of news fs folder]
    by (simp add: sort_conflicting_indices)
qed

text \<open>
  One step of the resolution removes its index from the conflict set and adds none: the
  name it assigns neither exists in the folder nor occurs in the working plan.
\<close>

lemma conflict_set_resolve_conflict:
  assumes "snd c < length temp_news"
  shows "spec_conflict_set fs folder (resolve_conflict fs folder temp_news c) \<subseteq>
         spec_conflict_set fs folder temp_news - {snd c}"
proof -
  obtain base ext where be: "splitext (fst c) = (base, ext)" by (cases "splitext (fst c)")
  define nm where "nm = find_free fs folder base ext temp_news 1"
  define i where "i = snd c"
  have t: "resolve_conflict fs folder temp_news c = temp_news[i := nm]"
    by (simp add: resolve_conflict_def be nm_def i_def)
  have free: "\<not> path_exists fs (path_join folder nm)" "nm \<notin> set temp_news"
    using find_free_not_taken[of fs folder temp_news base ext 1] by (simp_all add: taken_def nm_def)
  have i: "i < length temp_news" using assms by (simp add: i_def)
  show ?thesis
    unfolding t i_def[symmetric]
  proof
    fix k assume "k \<in> spec_conflict_set fs folder (temp_news[i := nm])"
    then have k: "k < length temp_news"
      and c: "path_exists fs (path_join folder (temp_news[i := nm] ! k)) \<or>
              (\<exists>j. j < length temp_news \<and> j \<noteq> k \<and> temp_news[i := nm] ! j = temp_news[i := nm] ! k)"
      by (simp_all add: spec_conflict_set_def)
    have ki: "k \<noteq> i"
    proof
      assume e: "k = i"
      from c show False
      proof
        assume "path_exists fs (path_join folder (temp_news[i := nm] ! k))"
        then show False using free(1) e i by simp
      next
        assume "\<exists>j. j < length temp_news \<and> j \<noteq> k \<and> temp_news[i := nm] ! j = temp_news[i := nm] ! k"
        then obtain j where "j < length temp_news" "j \<noteq> k" "temp_news[i := nm] ! j = temp_news[i := nm] ! k"
          by blast
        then have "temp_news ! j = nm" using e i by simp
        then show False using free(2) \<open>j < length temp_news\<close> by auto
      qed
    qed
    then have kk: "temp_news[i := nm] ! k = temp_news ! k" by simp
    from c have "path_exists fs (path_join folder (temp_news ! k)) \<or>
              (\<exists>j. j < length temp_news \<and> j \<noteq> k \<and> temp_news ! j = temp_news ! k)"
    proof
      assume "path_exists fs (path_join folder (temp_news[i := nm] ! k))"
      then show ?thesis using kk by simp
    next
      assume "\<exists>j. j < length temp_news \<and> j \<noteq> k \<and> temp_news[i := nm] ! j = temp_news[i := nm] ! k"
      then obtain j where j: "j < length temp_news" "j \<noteq> k" "temp_news[i := nm] ! j = temp_news ! k"
        using kk by auto
      have "j \<noteq> i"
      proof
        assume "j = i"
        then have "nm = temp_news ! k" using j i by simp
        then show False using free(2) k by auto
      qed
      then have "temp_news ! j = temp_news ! k" using j by simp
      then show ?thesis using j by blast
    qed
    then show "k \<in> spec_conflict_set fs folder temp_news - {i}"
      using k ki by (simp add: spec_conflict_set_def)
  qed
qed

lemma conflict_set_auto_resolve:
  "\<forall>c \<in> set cs. snd c < length temp_news \<Longrightarrow>
   spec_conflict_set fs folder (auto_resolve fs folder temp_news cs) \<subseteq>
   spec_conflict_set fs folder temp_news - snd ` set cs"
proof (induction cs arbitrary: temp_news)
  case Nil
  then show ?case by (simp add: auto_resolve_def)
next
  case (Cons c cs)
  let ?t = "resolve_conflict fs folder temp_news c"
  have 1: "spec_conflict_set fs folder ?t \<subseteq> spec_conflict_set fs folder temp_news - {snd c}"
    using Cons.prems by (intro conflict_set_resolve_conflict) simp
  have "\<forall>c \<in> set cs. snd c < length ?t" using Cons.prems by simp
  from Cons.IH[OF this]
  have 2: "spec_conflict_set fs folder (auto_resolve fs folder ?t cs) \<subseteq>
           spec_conflict_set fs folder ?t - snd ` set cs" .
  have "auto_resolve fs folder temp_news (c # cs) = auto_resolve fs folder ?t cs"
    by (simp add: auto_resolve_def)
  then show ?case using 1 2 by auto
qed

lemma auto_resolve_unchanged:
  "i \<notin> snd ` set cs \<Longrightarrow> auto_resolve fs folder temp_news cs ! i = temp_news ! i"
proof (induction cs arbitrary: temp_news)
  case Nil
  then show ?case by (simp add: auto_resolve_def)
next
  case (Cons c cs)
  have "resolve_conflict fs folder temp_news c ! i = temp_news ! i"
    using Cons.prems by (simp add: resolve_conflict_def split: prod.splits)
  moreover have "auto_resolve fs folder temp_news (c # cs) =
        auto_resolve fs folder (resolve_conflict fs folder temp_news c) cs"
    by (simp add: auto_resolve_def)
  ultimately show ?case using Cons.IH[of "resolve_conflict fs folder temp_news c"] Cons.prems
    by simp
qed

lemma conflict_free_distinct:
  assumes "spec_conflict_set fs folder r = {}"
  shows "distinct r \<and> (\<forall>n \<in> set r. \<not> path_exists fs (path_join folder n))"
proof -
  have a: "\<And>i. i < length r \<Longrightarrow> \<not> path_exists fs (path_join folder (r ! i))"
    and b: "\<And>i j. i < length r \<Longrightarrow> j < length r \<Longrightarrow> j \<noteq> i \<Longrightarrow> r ! j \<noteq> r ! i"
    using assms by (auto simp: spec_conflict_set_def)
  have "distinct r"
    using b by (auto simp: distinct_conv_nth)
  moreover have "\<forall>n \<in> set r. \<not> path_exists fs (path_join folder n)"
    using a by (auto simp: in_set_conv_nth)
  ultimately show ?thesis by simp
qed

lemma handle_name_conflicts_rename:
  "handle_name_conflicts st news folder RenameBtn =
   (let ci = conflicting_indices (files st) folder news;
        r = auto_resolve (files st) folder news (conflicts_of news ci)
    in (Some r, if ci = [] then st
                else (show_dialog (ConflictBox (length ci)) st)\<lparr>text_new := join_lines r\<rparr>))"
  by (simp add: handle_name_conflicts_def Let_def conflicts_of_def auto_resolve_def)

text \<open>
  C4, as stated, fails in two places. In a folder that holds \<open>x_(1).txt\<close> and no
  \<open>x.txt\<close> the plan \<open>x.txt, x.txt\<close> is resolved to \<open>x_(2).txt, x_(3).txt\<close>, not to
  \<open>x_(1).txt, x_(2).txt\<close>. And the name \<open>.bashrc\<close> is not split at its last dot, which
  would give the candidate \<open>_(1).bashrc\<close>: the resolver assigns \<open>.bashrc_(1)\<close>.
\<close>

theorem C4_auto_resolve_counterexample:
  "\<not> path_exists (files suffix_taken_app) (path_join ''/d'' ''x.txt'') \<and>
   fst (handle_name_conflicts suffix_taken_app [''x.txt'', ''x.txt''] ''/d'' RenameBtn) =
     Some [''x_(2).txt'', ''x_(3).txt''] \<and>
   split_at_last_dot ''.bashrc'' = ('''', ''.bashrc'') \<and>
   candidate '''' ''.bashrc'' 1 = ''_(1).bashrc'' \<and>
   fst (handle_name_conflicts example_app [''.bashrc'', ''.bashrc''] ''/d'' RenameBtn) =
     Some [''.bashrc_(1)'', ''.bashrc_(2)'']"
  by code_simp

text \<open>
  C4, amended: for new names without a slash (validation leaves no other), the resolver
  with the button \<open>Rename\<close> returns the plan of the described procedure: the conflicting
  indices in ascending order, each replaced, in the working plan and before the next is
  visited, by the candidate \<open>base_(k)ext\<close> of the least \<open>k \<ge> 1\<close> that neither exists in
  the folder nor is a name of the working plan, where the name is split into
  \<open>(base, ext)\<close> at its last dot, unless only dots precede that dot: then, as for a name
  without a dot, \<open>ext\<close> is empty. For the plan \<open>x.txt, x.txt\<close> in a folder that holds
  neither \<open>x_(1).txt\<close> nor \<open>x_(2).txt\<close> the result is \<open>x_(1).txt, x_(2).txt\<close>.
\<close>

theorem C4_auto_resolve_first_free_candidate:
  "((\<forall>n \<in> set news. CHR ''/'' \<notin> set n) \<longrightarrow>
      fst (handle_name_conflicts st news folder RenameBtn) =
        Some (spec_auto_resolve (files st) folder news)) \<and>
   (\<not> path_exists (files st) (path_join folder ''x_(1).txt'') \<and>
    \<not> path_exists (files st) (path_join folder ''x_(2).txt'') \<longrightarrow>
      fst (handle_name_conflicts st [''x.txt'', ''x.txt''] folder RenameBtn) =
        Some [''x_(1).txt'', ''x_(2).txt''])"
proof -
  have 1: "(\<forall>n \<in> set news. CHR ''/'' \<notin> set n) \<longrightarrow>
      fst (handle_name_conflicts st news folder RenameBtn) =
        Some (spec_auto_resolve (files st) folder news)"
    by (simp add: handle_name_conflicts_rename Let_def auto_resolve_eq_spec)
  have 2: "fst (handle_name_conflicts st [''x.txt'', ''x.txt''] folder RenameBtn) =
        Some [''x_(1).txt'', ''x_(2).txt'']"
    if a: "\<not> path_exists (files st) (path_join folder ''x_(1).txt'')"
      and b: "\<not> path_exists (files st) (path_join folder ''x_(2).txt'')"
  proof -
    have s: "spec_conflict_set (files st) folder [''x.txt'', ''x.txt''] = {0, 1}"
      by (auto simp: spec_conflict_set_def less_Suc_eq nth_Cons')
    have l: "sorted_list_of_set {0, 1 :: nat} = [0, 1]"
      by (simp add: sorted_list_of_set_sort_remdups[of "[0, 1]", simplified])
    have cs: "conflicts_of [''x.txt'', ''x.txt'']
                (conflicting_indices (files st) folder [''x.txt'', ''x.txt'']) =
              [(''x.txt'', 0), (''x.txt'', 1)]"
      by (simp add: conflicts_of_def sort_conflicting_indices s l)
    have sp: "splitext ''x.txt'' = (''x'', ''.txt'')"
      by code_simp
    have c1: "candidate ''x'' ''.txt'' 1 = ''x_(1).txt''"
      by code_simp
    have c2: "candidate ''x'' ''.txt'' 2 = ''x_(2).txt''"
      by code_simp
    have n1: "\<not> taken (files st) folder [''x.txt'', ''x.txt''] (candidate ''x'' ''.txt'' 1)"
      unfolding c1 using a by (simp add: taken_def)
    have f1: "find_free (files st) folder ''x'' ''.txt'' [''x.txt'', ''x.txt''] 1 = ''x_(1).txt''"
      using find_free_hit[OF n1] unfolding c1 .
    have t1: "taken (files st) folder [''x_(1).txt'', ''x.txt''] (candidate ''x'' ''.txt'' 1)"
      unfolding c1 by (simp add: taken_def)
    have n2: "\<not> taken (files st) folder [''x_(1).txt'', ''x.txt''] (candidate ''x'' ''.txt'' 2)"
      unfolding c2 using b by (simp add: taken_def)
    have "find_free (files st) folder ''x'' ''.txt'' [''x_(1).txt'', ''x.txt''] 1 =
          find_free (files st) folder ''x'' ''.txt'' [''x_(1).txt'', ''x.txt''] (1 + 1)"
      by (rule find_free_miss[OF t1])
    also have "\<dots> = find_free (files st) folder ''x'' ''.txt'' [''x_(1).txt'', ''x.txt''] 2"
      by (simp only: one_add_one)
    also have "\<dots> = ''x_(2).txt''"
      using find_free_hit[OF n2] unfolding c2 .
    finally have f2:
      "find_free (files st) folder ''x'' ''.txt'' [''x_(1).txt'', ''x.txt''] 1 = ''x_(2).txt''" .
    have r0: "resolve_conflict (files st) folder [''x.txt'', ''x.txt''] (''x.txt'', 0) =
              [''x_(1).txt'', ''x.txt'']"
      unfolding resolve_conflict_def fst_conv snd_conv sp Let_def prod.case f1 by simp
    have r1: "resolve_conflict (files st) folder [''x_(1).txt'', ''x.txt''] (''x.txt'', 1) =
              [''x_(1).txt'', ''x_(2).txt'']"
      unfolding resolve_conflict_def fst_conv snd_conv sp Let_def prod.case f2 by simp
    have "auto_resolve (files st) folder [''x.txt'', ''x.txt''] [(''x.txt'', 0), (''x.txt'', 1)] =
          [''x_(1).txt'', ''x_(2).txt'']"
      by (simp only: auto_resolve_def foldl_Cons foldl_Nil r0 r1)
    then show ?thesis
      by (simp add: handle_name_conflicts_rename Let_def cs)
  qed
  show ?thesis using 1 2 by blast
qed

theorem C4_auto_resolve_witness:
  "CHR ''/'' \<notin> set ''x.txt'' \<and>
   \<not> path_exists (files example_app) (path_join ''/d'' ''x_(1).txt'') \<and>
   \<not> path_exists (files example_app) (path_join ''/d'' ''x_(2).txt'') \<and>
   fst (handle_name_conflicts example_app [''x.txt'', ''x.txt''] ''/d'' RenameBtn) =
     Some [''x_(1).txt'', ''x_(2).txt''] \<and>
   spec_auto_resolve (files example_app) ''/d'' [''x.txt'', ''x.txt''] =
     [''x_(1).txt'', ''x_(2).txt'']"
proof -
  have h0: "CHR ''/'' \<notin> set ''x.txt''" by simp
  have h1: "\<forall>n \<in> set [''x.txt'', ''x.txt'']. CHR ''/'' \<notin> set n" by simp
  have h2: "\<not> path_exists (files example_app) (path_join ''/d'' ''x_(1).txt'') \<and>
           \<not> path_exists (files example_app) (path_join ''/d'' ''x_(2).txt'')"
    by code_simp
  note t = C4_auto_resolve_first_free_candidate[where st = example_app and
      news = "[''x.txt'', ''x.txt'']" and folder = "''/d''"]
  have a: "fst (handle_name_conflicts example_app [''x.txt'', ''x.txt''] ''/d'' RenameBtn) =
     Some [''x_(1).txt'', ''x_(2).txt'']"
    using t h2 by blast
  have b: "fst (handle_name_conflicts example_app [''x.txt'', ''x.txt''] ''/d'' RenameBtn) =
        Some (spec_auto_resolve (files example_app) ''/d'' [''x.txt'', ''x.txt''])"
    using t h1 by blast
  have c: "spec_auto_resolve (files example_app) ''/d'' [''x.txt'', ''x.txt''] =
     [''x_(1).txt'', ''x_(2).txt'']"
    using a b by simp
  show ?thesis using h0 h2 a c by blast
qed

text \<open>
  C5: for every plan and every file system, the plan that the resolver returns with the
  button \<open>Rename\<close> has an empty conflict set when detection runs on it again over the
  same file system: its names are pairwise distinct, none of them exists in the folder,
  and the names at the indices that did not conflict are unchanged.
\<close>

theorem C5_auto_resolve_conflict_free:
  assumes "fst (handle_name_conflicts st news folder RenameBtn) = Some r"
  shows "conflicting_indices (files st) folder r = [] \<and>
         distinct r \<and>
         (\<forall>n \<in> set r. \<not> path_exists (files st) (path_join folder n)) \<and>
         length r = length news \<and>
         (\<forall>i. i < length news \<and> i \<notin> set (conflicting_indices (files st) folder news)
              \<longrightarrow> r ! i = news ! i)"
proof -
  define ci where "ci = conflicting_indices (files st) folder news"
  define cs where "cs = conflicts_of news ci"
  have r: "r = auto_resolve (files st) folder news cs"
    using assms by (simp add: handle_name_conflicts_rename Let_def ci_def cs_def)
  have snd_cs: "snd ` set cs = spec_conflict_set (files st) folder news"
    by (simp add: cs_def conflicts_of_def ci_def image_image set_conflicting_indices)
  have bound: "\<forall>c \<in> set cs. snd c < length news"
    using snd_cs by (auto simp: spec_conflict_set_def)
  have "spec_conflict_set (files st) folder r \<subseteq>
        spec_conflict_set (files st) folder news - snd ` set cs"
    unfolding r by (rule conflict_set_auto_resolve[OF bound])
  then have e: "spec_conflict_set (files st) folder r = {}"
    using snd_cs by simp
  then have 1: "conflicting_indices (files st) folder r = []"
    using set_conflicting_indices[of "files st" folder r] by simp
  have 2: "distinct r \<and> (\<forall>n \<in> set r. \<not> path_exists (files st) (path_join folder n))"
    using e by (rule conflict_free_distinct)
  have 3: "length r = length news" by (simp add: r)
  have 4: "\<forall>i. i < length news \<and> i \<notin> set (conflicting_indices (files st) folder news)
              \<longrightarrow> r ! i = news ! i"
    using auto_resolve_unchanged[of _ cs "files st" folder news]
    by (simp add: r snd_cs set_conflicting_indices)
  show ?thesis using 1 2 3 4 by simp
qed

theorem C5_auto_resolve_witness:
  "fst (handle_name_conflicts example_app [''b.txt'', ''q'', ''q'', ''z''] ''/d'' RenameBtn) =
     Some [''b_(1).txt'', ''q_(1)'', ''q_(2)'', ''z''] \<and>
   conflicting_indices (files example_app) ''/d'' [''b_(1).txt'', ''q_(1)'', ''q_(2)'', ''z''] = [] \<and>
   distinct [''b_(1).txt'', ''q_(1)'', ''q_(2)'', ''z''] \<and>
   conflicting_indices (files example_app) ''/d'' [''b.txt'', ''q'', ''q'', ''z''] = [0, 1, 2]"
proof -
  have h: "fst (handle_name_conflicts example_app [''b.txt'', ''q'', ''q'', ''z''] ''/d'' RenameBtn) =
     Some [''b_(1).txt'', ''q_(1)'', ''q_(2)'', ''z'']"
    by code_simp
  have c: "conflicting_indices (files example_app) ''/d'' [''b.txt'', ''q'', ''q'', ''z''] = [0, 1, 2]"
    by code_simp
  show ?thesis
    using h c C5_auto_resolve_conflict_free[OF h] by simp
qed

subsection \<open>The history file during a batch\<close>

lemma moved_pairs_append [simp]:
  "moved_pairs folder (xs @ ys) = moved_pairs folder xs @ moved_pairs folder ys"
  by (simp add: moved_pairs_def)










subsection \<open>New names hold no separator\<close>










subsection \<open>Rename, then undo\<close>






lemma rename_loop_files_post:
  "files (save_rename_log env (appendPlainText DoneLine
       (let s4 = s1\<lparr>rename_history := h\<rparr>
        in if rename_history s4 \<noteq> [] then s4\<lparr>undo_button_enabled := True\<rparr> else s4))) = files s1"
  by (simp add: save_rename_log_def appendPlainText_def Let_def)













lemma undo_unfold:
  assumes "rename_history r \<noteq> []"
    and "all_files_exist (files r) (rename_history r)"
    and "undo_loop env (length (rename_history r))
           ((show_dialog UndoConfirmBox (r\<lparr>progress_visible := False\<rparr>))
              \<lparr>log_text := [UndoingLine], progress_label := 0, progress_visible := True\<rparr>, 0)
           (rev (rename_history r)) = (u4, m4)"
  shows "undo env True r =
         save_undo_log env
           ((appendPlainText UndoDoneLine u4)
              \<lparr>rename_history := [], undo_button_enabled := False,
               history_file := remove_history_file env (history_file u4)\<rparr>)"
  using assms
  by (simp add: undo_def Let_def show_dialog_def appendPlainText_def)





subsection \<open>The progress percentage\<close>

lemma round_half_even_close: "\<bar>of_int (round_half_even y) - y\<bar> \<le> 1 / 2"
proof -
  have a: "of_int \<lfloor>y\<rfloor> \<le> y" and b: "y < of_int \<lfloor>y\<rfloor> + 1" by linarith+
  show ?thesis
    using a b by (auto simp: round_half_even_def Let_def abs_le_iff)
qed

lemma bit_length_one: "bit_length (Suc 0) = Suc 0"
  by (simp add: bit_length.simps[of "Suc 0"] bit_length.simps[of 0])

lemma bit_length_bounds:
  "0 < n \<Longrightarrow> 2 ^ (bit_length n - 1) \<le> n \<and> n < 2 ^ bit_length n"
proof (induction n rule: bit_length.induct)
  case (1 n)
  show ?case
  proof (cases "n div 2 = 0")
    case True
    then have "n = 1" using 1(2) by linarith
    then show ?thesis by (simp add: bit_length_one)
  next
    case False
    then have ih: "2 ^ (bit_length (n div 2) - 1) \<le> n div 2" "n div 2 < 2 ^ bit_length (n div 2)"
      using 1 by simp_all
    have bl: "bit_length n = Suc (bit_length (n div 2))"
      using 1(2) by (subst bit_length.simps) simp
    have pos: "0 < bit_length (n div 2)"
      using False by (subst bit_length.simps) simp
    have "2 ^ (bit_length n - 1) = 2 * 2 ^ (bit_length (n div 2) - 1)"
      using pos bl by (cases "bit_length (n div 2)") simp_all
    also have "\<dots> \<le> 2 * (n div 2)" using ih(1) by simp
    also have "\<dots> \<le> n" by simp
    finally have lo: "2 ^ (bit_length n - 1) \<le> n" .
    have "n < 2 * (n div 2) + 2" by linarith
    also have "\<dots> \<le> 2 * 2 ^ bit_length (n div 2)" using ih(2) by simp
    finally have hi: "n < 2 ^ bit_length n" using bl by simp
    show ?thesis using lo hi by simp
  qed
qed

lemma lead_shift_bounds:
  "0 < x \<Longrightarrow> x * 2 ^ k < 2 \<Longrightarrow>
   1 \<le> x * 2 ^ lead_shift x k \<and> x * 2 ^ lead_shift x k < 2"
proof (induction x k rule: lead_shift.induct)
  case (1 x k)
  show ?case
  proof (cases "1 \<le> x * 2 ^ k")
    case True
    then have "lead_shift x k = k" by (subst lead_shift.simps) simp
    then show ?thesis using True 1(3) by simp
  next
    case False
    then have l: "lead_shift x k = lead_shift x (Suc k)"
      using 1(2) by (subst lead_shift.simps) simp
    have "x * 2 ^ Suc k < 2" using False by simp
    then show ?thesis
      using 1(1) 1(2) False l by simp
  qed
qed

text \<open>The binary exponent brackets a positive number between two powers of two.\<close>

lemma exponent2_bounds:
  assumes "0 < x"
  shows "power_int 2 (exponent2 x) \<le> x \<and> x < 2 * power_int 2 (exponent2 x)"
proof (cases "1 \<le> x")
  case True
  define n where "n = nat \<lfloor>x\<rfloor>"
  have n: "0 < n" using True by (simp add: n_def)
  have nx: "of_nat n \<le> x" "x < of_nat n + 1"
    using True by (simp_all add: n_def) linarith+
  have e: "exponent2 x = int (bit_length n - 1)"
    using True bit_length_bounds[OF n] n
    by (cases "bit_length n") (auto simp: exponent2_def n_def)
  have bl: "0 < bit_length n" using n by (subst bit_length.simps) simp
  have pe: "power_int (2::rat) (exponent2 x) = 2 ^ (bit_length n - 1)"
    by (simp add: e)
  have r1: "(2::rat) ^ (bit_length n - 1) \<le> of_nat n"
    using bit_length_bounds[OF n] by (metis of_nat_le_iff of_nat_numeral of_nat_power)
  have lo: "power_int 2 (exponent2 x) \<le> x"
    unfolding pe using r1 nx(1) by (rule order_trans)
  have "n + 1 \<le> 2 ^ bit_length n" using bit_length_bounds[OF n] by simp
  then have "(of_nat (n + 1) :: rat) \<le> of_nat (2 ^ bit_length n)"
    by (simp only: of_nat_le_iff)
  then have "(of_nat n :: rat) + 1 \<le> 2 ^ bit_length n" by simp
  also have "\<dots> = 2 * 2 ^ (bit_length n - 1)"
    using bl by (cases "bit_length n") simp_all
  finally have r2: "(of_nat n :: rat) + 1 \<le> 2 * 2 ^ (bit_length n - 1)" .
  have hi: "x < 2 * power_int 2 (exponent2 x)"
    unfolding pe using nx(2) r2 by (rule less_le_trans)
  show ?thesis using lo hi by simp
next
  case False
  define k where "k = lead_shift x 0"
  have b: "1 \<le> x * 2 ^ k" "x * 2 ^ k < 2"
    using lead_shift_bounds[of x 0] assms False by (simp_all add: k_def)
  have e: "exponent2 x = - int k" using False by (simp add: exponent2_def k_def)
  have p: "power_int (2::rat) (- int k) = 1 / 2 ^ k"
    by (simp add: power_int_minus_divide)
  have "1 / 2 ^ k \<le> x" using b(1) by (simp add: field_simps)
  moreover have "x < 2 * (1 / 2 ^ k)" using b(2) by (simp add: field_simps)
  ultimately show ?thesis by (simp add: e p)
qed

text \<open>Rounding to a double changes a positive number by at most \<open>2\<^sup>-\<^sup>5\<^sup>3\<close> of it.\<close>

lemma fl_error:
  assumes "0 < x"
  shows "\<bar>fl x - x\<bar> \<le> x / 2 ^ 53"
proof -
  define e where "e = exponent2 x"
  define u where "u = power_int (2::rat) (e - 52)"
  have upos: "0 < u" by (simp add: u_def)
  have flx: "fl x = of_int (round_half_even (x / u)) * u"
    using assms by (simp add: fl_def Let_def u_def e_def)
  have "\<bar>fl x - x\<bar> = \<bar>of_int (round_half_even (x / u)) - x / u\<bar> * u"
  proof -
    have "fl x - x = (of_int (round_half_even (x / u)) - x / u) * u"
      using upos by (simp add: flx field_simps)
    then show ?thesis using upos by (simp add: abs_mult)
  qed
  also have "\<dots> \<le> (1 / 2) * u"
    using round_half_even_close[of "x / u"] upos by (intro mult_right_mono) simp_all
  also have "\<dots> = power_int 2 e / 2 ^ 53"
  proof -
    have "u = power_int 2 e * power_int 2 (- 52)"
      unfolding u_def by (subst power_int_add[symmetric]) simp_all
    also have "power_int (2::rat) (- 52) = 1 / 2 ^ 52"
      using power_int_minus_divide[of "2::rat" "int 52"] by simp
    finally show ?thesis by simp
  qed
  also have "\<dots> \<le> x / 2 ^ 53"
    using exponent2_bounds[OF assms] by (simp add: e_def divide_right_mono)
  finally show ?thesis .
qed

text \<open>
  The double computed for \<open>processed_count / total_files * 100\<close> is positive and lies
  within \<open>2\<^sup>-\<^sup>4\<^sup>5\<close> of the exact value.
\<close>

lemma percentage_double_close:
  assumes "1 \<le> i" and "i \<le> n"
  shows "0 < fl (fl (of_nat i / of_nat n) * 100) \<and>
         \<bar>fl (fl (of_nat i / of_nat n) * 100) - 100 * of_nat i / of_nat n\<bar> < 1 / 2 ^ 45"
proof -
  define eps :: rat where "eps = 1 / 2 ^ 53"
  define q0 :: rat where "q0 = of_nat i / of_nat n"
  define q where "q = fl q0"
  define p where "p = q * 100"
  define r where "r = fl p"
  have eps: "0 < eps" "eps < 1" by (simp_all add: eps_def)
  have q0: "0 < q0" "q0 \<le> 1" using assms by (simp_all add: q0_def)
  have eq: "\<bar>q - q0\<bar> \<le> q0 * eps"
    using fl_error[OF q0(1)] by (simp add: q_def eps_def)
  have qlo: "q0 * (1 - eps) \<le> q" and qhi: "q \<le> q0 * (1 + eps)"
    using eq by (simp_all add: abs_le_iff algebra_simps)
  have "0 < q0 * (1 - eps)" using q0(1) eps by simp
  then have qpos: "0 < q" using qlo by linarith
  have ppos: "0 < p" using qpos by (simp add: p_def)
  have er: "\<bar>r - p\<bar> \<le> p * eps"
    using fl_error[OF ppos] by (simp add: r_def eps_def)
  have "p * (1 - eps) \<le> r" using er by (simp add: abs_le_iff algebra_simps)
  moreover have "0 < p * (1 - eps)" using ppos eps by simp
  ultimately have rpos: "0 < r" by linarith
  have "\<bar>r - 100 * q0\<bar> \<le> \<bar>r - p\<bar> + \<bar>p - 100 * q0\<bar>" by simp
  also have "\<bar>p - 100 * q0\<bar> = 100 * \<bar>q - q0\<bar>" by (simp add: p_def abs_if)
  also have "\<bar>r - p\<bar> + 100 * \<bar>q - q0\<bar> \<le> p * eps + 100 * (q0 * eps)"
    using er eq by simp
  also have "p * eps \<le> 100 * (q0 * (1 + eps)) * eps"
    using qhi eps(1) by (simp add: p_def mult_right_mono)
  finally have b1: "\<bar>r - 100 * q0\<bar> \<le> 100 * (q0 * (1 + eps)) * eps + 100 * (q0 * eps)"
    by simp
  have "100 * (q0 * (1 + eps)) * eps + 100 * (q0 * eps) = q0 * (100 * eps * (2 + eps))"
    by (simp add: algebra_simps)
  also have "\<dots> \<le> 1 * (100 * eps * (2 + eps))"
    using q0(2) eps(1) by (intro mult_right_mono) simp_all
  also have "\<dots> < 1 / 2 ^ 45"
    by (simp add: eps_def)
  finally have "\<bar>r - 100 * q0\<bar> < 1 / 2 ^ 45" using b1 by linarith
  then show ?thesis
    using rpos by (simp add: r_def p_def q_def q0_def)
qed

text \<open>
  For up to \<open>2\<^sup>4\<^sup>5\<close> items the percentage is the integer quotient of \<open>100 * i\<close> by
  \<open>n\<close>, or one less where the quotient is exact.
\<close>

lemma percentage_floor:
  assumes "1 \<le> i" and "i \<le> n" and "n \<le> 2 ^ 45"
  shows "percentage i n = int ((100 * i) div n) \<or>
         (n dvd 100 * i \<and> percentage i n = int ((100 * i) div n) - 1)"
proof -
  define r where "r = fl (fl (of_nat i / of_nat n) * 100)"
  define d where "d = (100 * i) div n"
  define m where "m = (100 * i) mod n"
  define t :: rat where "t = 1 / 2 ^ 45"
  define x :: rat where "x = 100 * of_nat i / of_nat n"
  define N :: rat where "N = of_nat n"
  define M :: rat where "M = of_nat m"
  define D :: rat where "D = of_nat d"
  have npos: "0 < n" using assms by simp
  have Npos: "0 < N" using npos by (simp add: N_def)
  have pc: "0 < r \<and> \<bar>r - x\<bar> < t"
    using percentage_double_close[OF assms(1,2)] unfolding r_def x_def t_def .
  have rpos: "0 < r" and close: "\<bar>r - x\<bar> < t" using pc by blast+
  have pr: "percentage i n = \<lfloor>r\<rfloor>"
    using rpos by (simp add: percentage_def trunc_def r_def)
  have "100 * i = d * n + m" by (simp add: d_def m_def)
  then have "(of_nat (100 * i) :: rat) = of_nat (d * n + m)" by (simp only:)
  then have "100 * of_nat i = D * N + M" by (simp add: D_def N_def M_def)
  then have "x = (D * N + M) / N" by (simp add: x_def N_def)
  also have "\<dots> = D + M / N" using Npos by (simp add: add_divide_distrib)
  finally have x: "x = D + M / N" .
  have "(of_nat n :: rat) \<le> of_nat (2 ^ 45)" using assms(3) by (simp only: of_nat_le_iff)
  then have n45: "N \<le> 2 ^ 45" by (simp add: N_def)
  have inv: "t \<le> 1 / N"
    unfolding t_def using n45 Npos by (intro divide_left_mono) simp_all
  have t1: "t < 1" by (simp add: t_def)
  have lo: "x - t < r" and hi: "r < x + t"
    using close by (simp_all add: abs_less_iff)
  show ?thesis
  proof (cases "m = 0")
    case True
    have dv: "n dvd 100 * i" using True by (simp add: m_def dvd_eq_mod_eq_0)
    have xd: "x = D" using x True by (simp add: M_def)
    have "D - 1 \<le> r" using lo t1 xd by linarith
    then have "of_int (int d - 1) \<le> r" by (simp add: D_def)
    then have a: "int d - 1 \<le> \<lfloor>r\<rfloor>" by (simp only: le_floor_iff)
    have "r < D + 1" using hi t1 xd by linarith
    then have "r < of_int (int d + 1)" by (simp add: D_def)
    then have "\<lfloor>r\<rfloor> < int d + 1" by (simp only: floor_less_iff)
    then have "\<lfloor>r\<rfloor> = int d \<or> \<lfloor>r\<rfloor> = int d - 1" using a by linarith
    then show ?thesis using dv unfolding pr d_def by blast
  next
    case False
    have mn: "m < n" using npos by (simp add: m_def)
    have "1 \<le> m" using False by simp
    then have "(of_nat 1 :: rat) \<le> of_nat m" by (simp only: of_nat_le_iff)
    then have M1: "1 \<le> M" by (simp add: M_def)
    have l: "1 / N \<le> M / N"
      using M1 Npos by (intro divide_right_mono) simp_all
    have "m + 1 \<le> n" using mn by simp
    then have "(of_nat (m + 1) :: rat) \<le> of_nat n" by (simp only: of_nat_le_iff)
    then have "M \<le> N - 1" by (simp add: M_def N_def)
    then have "M / N \<le> (N - 1) / N"
      using Npos by (intro divide_right_mono) simp_all
    also have "\<dots> = 1 - 1 / N" using Npos by (simp add: diff_divide_distrib)
    finally have h: "M / N \<le> 1 - 1 / N" .
    have "D < r" using lo inv l x by linarith
    then have a: "of_int (int d) < r" by (simp add: D_def)
    have "r < D + 1" using hi inv h x by linarith
    then have b: "r < of_int (int d) + 1" by (simp add: D_def)
    have "\<lfloor>r\<rfloor> = int d"
      using a b by (intro floor_unique) simp_all
    then show ?thesis unfolding pr d_def by blast
  qed
qed

lemma percentage_last: "1 \<le> n \<Longrightarrow> percentage n n = 100"
proof -
  assume "1 \<le> n"
  then have "(of_nat n :: rat) / of_nat n = 1" by simp
  moreover have "trunc (fl (fl 1 * 100)) = 100" by code_simp
  ultimately show ?thesis by (simp add: percentage_def)
qed

text \<open>
  Every item of the two loops paints one percentage, that of its position, whatever
  became of the item.
\<close>

lemma rename_item_painted:
  assumes "rename_item env folder n (s, t, k) item = (s1, t1, k1)"
  shows "progress_painted s1 = progress_painted s @ [percentage (Suc k) n] \<and> k1 = Suc k"
  using assms
  by (auto simp: rename_item_def write_history_def appendPlainText_def Let_def
      split: prod.splits sum.splits option.splits if_splits)

lemma rename_loop_painted:
  "rename_loop env folder n (s, t, k) items = (s1, t1, k1) \<Longrightarrow>
   progress_painted s1 =
     progress_painted s @ map (\<lambda>i. percentage i n) [Suc k..<Suc k + length items]"
proof (induction items arbitrary: s t k)
  case Nil
  then show ?case by (simp add: rename_loop_def)
next
  case (Cons item items)
  obtain s2 t2 k2 where a: "rename_item env folder n (s, t, k) item = (s2, t2, k2)"
    by (cases "rename_item env folder n (s, t, k) item") auto
  have p: "progress_painted s2 = progress_painted s @ [percentage (Suc k) n]" and k2: "k2 = Suc k"
    using rename_item_painted[OF a] by simp_all
  have "rename_loop env folder n (s2, t2, k2) items = (s1, t1, k1)"
    using Cons.prems a by (simp add: rename_loop_def)
  then have "progress_painted s1 =
      progress_painted s2 @ map (\<lambda>i. percentage i n) [Suc k2..<Suc k2 + length items]"
    by (rule Cons.IH)
  moreover have "[Suc k..<Suc k + length (item # items)] =
      Suc k # [Suc (Suc k)..<Suc (Suc k) + length items]"
    by (subst upt_rec) (simp del: upt_Suc)
  ultimately show ?case by (simp add: p k2)
qed

lemma execute_rename_painted:
  "progress_painted (execute_rename env st folder origs news) =
     progress_painted st @
     map (\<lambda>i. percentage i (length origs)) [1..<Suc (min (length origs) (length news))]"
proof (cases "origs = []")
  case True
  then show ?thesis by (simp add: execute_rename_def appendPlainText_def)
next
  case False
  define s2 where "s2 = st\<lparr>log_text := [], progress_label := 0, progress_visible := True,
    history_file := remove_history_file env (history_file st)\<rparr>"
  obtain s3 t3 k3 where
    l: "rename_loop env folder (length origs) (s2, [], 0) (zip origs news) = (s3, t3, k3)"
    by (cases "rename_loop env folder (length origs) (s2, [], 0) (zip origs news)") auto
  have "progress_painted (execute_rename env st folder origs news) = progress_painted s3"
    using False l
    by (simp add: execute_rename_def Let_def s2_def appendPlainText_def save_rename_log_def)
  moreover have "progress_painted s3 =
      progress_painted s2 @
      map (\<lambda>i. percentage i (length origs)) [Suc 0..<Suc 0 + length (zip origs news)]"
    using l by (rule rename_loop_painted)
  moreover have "progress_painted s2 = progress_painted st" by (simp add: s2_def)
  ultimately show ?thesis by simp
qed

lemma undo_item_painted:
  assumes "undo_item env n (s, k) item = (s1, k1)"
  shows "progress_painted s1 = progress_painted s @ [percentage (Suc k) n] \<and> k1 = Suc k"
  using assms
  by (auto simp: undo_item_def appendPlainText_def Let_def split: prod.splits sum.splits)

lemma undo_loop_painted:
  "undo_loop env n (s, k) items = (s1, k1) \<Longrightarrow>
   progress_painted s1 =
     progress_painted s @ map (\<lambda>i. percentage i n) [Suc k..<Suc k + length items]"
proof (induction items arbitrary: s k)
  case Nil
  then show ?case by (simp add: undo_loop_def)
next
  case (Cons item items)
  obtain s2 k2 where a: "undo_item env n (s, k) item = (s2, k2)"
    by (cases "undo_item env n (s, k) item") auto
  have p: "progress_painted s2 = progress_painted s @ [percentage (Suc k) n]" and k2: "k2 = Suc k"
    using undo_item_painted[OF a] by simp_all
  have "undo_loop env n (s2, k2) items = (s1, k1)"
    using Cons.prems a by (simp add: undo_loop_def)
  then have "progress_painted s1 =
      progress_painted s2 @ map (\<lambda>i. percentage i n) [Suc k2..<Suc k2 + length items]"
    by (rule Cons.IH)
  moreover have "[Suc k..<Suc k + length (item # items)] =
      Suc k # [Suc (Suc k)..<Suc (Suc k) + length items]"
    by (subst upt_rec) (simp del: upt_Suc)
  ultimately show ?case by (simp add: p k2)
qed

lemma undo_painted:
  "progress_painted (undo env confirm st) =
     progress_painted st @
     (if confirm \<and> all_files_exist (files st) (rename_history st)
      then map (\<lambda>i. percentage i (length (rename_history st)))
             [1..<Suc (length (rename_history st))]
      else [])"
proof (cases "rename_history st \<noteq> [] \<and> confirm \<and> all_files_exist (files st) (rename_history st)")
  case False
  then show ?thesis by (auto simp: undo_def Let_def show_dialog_def)
next
  case True
  define s3 where "s3 = (show_dialog UndoConfirmBox (st\<lparr>progress_visible := False\<rparr>))
              \<lparr>log_text := [UndoingLine], progress_label := 0, progress_visible := True\<rparr>"
  obtain s4 k4 where
    l: "undo_loop env (length (rename_history st)) (s3, 0) (rev (rename_history st)) = (s4, k4)"
    by (cases "undo_loop env (length (rename_history st)) (s3, 0) (rev (rename_history st))") auto
  have "undo env True st =
         save_undo_log env
           ((appendPlainText UndoDoneLine s4)
              \<lparr>rename_history := [], undo_button_enabled := False,
               history_file := remove_history_file env (history_file s4)\<rparr>)"
    using True l by (intro undo_unfold) (simp_all add: s3_def)
  then have "progress_painted (undo env confirm st) = progress_painted s4"
    using True by (simp add: save_undo_log_def appendPlainText_def Let_def)
  moreover have "progress_painted s4 =
      progress_painted s3 @
      map (\<lambda>i. percentage i (length (rename_history st)))
        [Suc 0..<Suc 0 + length (rev (rename_history st))]"
    using l by (rule undo_loop_painted)
  moreover have "progress_painted s3 = progress_painted st"
    by (simp add: s3_def show_dialog_def)
  ultimately show ?thesis using True by simp
qed

text \<open>
  C9, as stated, fails: the percentage is truncated, not rounded to the nearest integer.
  For a plan of three items, the third of them not found, \<open>_execute_rename\<close> paints
  \<open>33, 66, 100\<close>, where rounding gives \<open>33, 67, 100\<close>. And item 29 of 100 paints
  \<open>28\<close>: the double nearest to \<open>0.29\<close>, times \<open>100\<close>, is below \<open>29\<close>.
\<close>

theorem C9_progress_counterexample:
  "progress_painted
     (execute_rename example_env example_app ''/d''
        [''a.txt'', ''b.txt'', ''c.txt''] [''x.txt'', ''y.txt'', ''z.txt'']) = [33, 66, 100] \<and>
   map (\<lambda>i. rounded_percentage i 3) [1, 2, 3] = [33, 67, 100] \<and>
   percentage 29 100 = 28 \<and> rounded_percentage 29 100 = 29"
  by code_simp

text \<open>
  C9, amended: in \<open>_execute_rename\<close> and in \<open>undo\<close> every processed item, whatever its
  outcome, paints one percentage: item \<open>i\<close> of \<open>n\<close> paints
  \<open>int((i / n) * 100)\<close>, the two operations in binary64 and the result truncated. For
  up to \<open>2\<^sup>4\<^sup>5\<close> items this is the integer quotient of \<open>100 * i\<close> by \<open>n\<close> (rounded down,
  not to the nearest), or one less than it where \<open>n\<close> divides \<open>100 * i\<close>; the last item
  paints \<open>100\<close>. \<open>undo\<close> paints nothing unless the safety check passes and the question
  is answered with Yes.
\<close>

theorem C9_progress_is_truncated_percentage:
  "progress_painted (execute_rename env st folder origs news) =
     progress_painted st @
     map (\<lambda>i. percentage i (length origs)) [1..<Suc (min (length origs) (length news))] \<and>
   progress_painted (undo env confirm st) =
     progress_painted st @
     (if confirm \<and> all_files_exist (files st) (rename_history st)
      then map (\<lambda>i. percentage i (length (rename_history st)))
             [1..<Suc (length (rename_history st))]
      else []) \<and>
   (1 \<le> i \<and> i \<le> n \<and> n \<le> 2 ^ 45 \<longrightarrow>
      (percentage i n = int ((100 * i) div n) \<or>
       (n dvd 100 * i \<and> percentage i n = int ((100 * i) div n) - 1))) \<and>
   (1 \<le> n \<longrightarrow> percentage n n = 100)"
proof -
  have a: "1 \<le> i \<and> i \<le> n \<and> n \<le> 2 ^ 45 \<longrightarrow>
      (percentage i n = int ((100 * i) div n) \<or>
       (n dvd 100 * i \<and> percentage i n = int ((100 * i) div n) - 1))"
    using percentage_floor[of i n] by blast
  have b: "1 \<le> n \<longrightarrow> percentage n n = 100"
    using percentage_last[of n] by blast
  show ?thesis
    using execute_rename_painted[of env st folder origs news] undo_painted[of env confirm st] a b
    by blast
qed

theorem C9_progress_witness:
  "(1::nat) \<le> 2 \<and> (2::nat) \<le> 3 \<and> (3::nat) \<le> 2 ^ 45 \<and>
   percentage 2 3 = 66 \<and> percentage 3 3 = 100 \<and>
   progress_painted
     (execute_rename example_env example_app ''/d''
        [''a.txt'', ''b.txt'', ''c.txt''] [''x.txt'', ''y.txt'', ''z.txt'']) =
     [percentage 1 3, percentage 2 3, percentage 3 3]"
proof -
  note t = C9_progress_is_truncated_percentage[where env = example_env and st = example_app
      and folder = "''/d''" and origs = "[''a.txt'', ''b.txt'', ''c.txt'']"
      and news = "[''x.txt'', ''y.txt'', ''z.txt'']" and i = 2 and n = 3]
  have h: "(1::nat) \<le> 2 \<and> (2::nat) \<le> 3 \<and> (3::nat) \<le> 2 ^ 45" by simp
  have "percentage 2 3 = int ((100 * 2) div 3) \<or>
        ((3::nat) dvd 100 * 2 \<and> percentage 2 3 = int ((100 * 2) div 3) - 1)"
    using t h by blast
  then have p2: "percentage 2 3 = 66" by simp
  have p3: "percentage 3 3 = 100" using t h by simp
  have e: "progress_painted example_app = []" by (simp add: example_app_def)
  have len: "length [''a.txt'', ''b.txt'', ''c.txt''] = 3"
    "length [''x.txt'', ''y.txt'', ''z.txt''] = 3" by simp_all
  have u: "[1..<Suc (min 3 3)] = [1, 2, 3::nat]"
    by (simp add: upt_rec)
  have "progress_painted
     (execute_rename example_env example_app ''/d''
        [''a.txt'', ''b.txt'', ''c.txt''] [''x.txt'', ''y.txt'', ''z.txt'']) =
     progress_painted example_app @
     map (\<lambda>i. percentage i (length [''a.txt'', ''b.txt'', ''c.txt'']))
       [1..<Suc (min (length [''a.txt'', ''b.txt'', ''c.txt''])
                     (length [''x.txt'', ''y.txt'', ''z.txt'']))]"
    using t by blast
  then have p: "progress_painted
     (execute_rename example_env example_app ''/d''
        [''a.txt'', ''b.txt'', ''c.txt''] [''x.txt'', ''y.txt'', ''z.txt'']) =
     [percentage 1 3, percentage 2 3, percentage 3 3]"
    by (simp only: len u e append_Nil list.map)
  show ?thesis using h p2 p3 p by blast
qed


end
